theory Spec2Isabelle
  imports Complex_Main "HOL-Library.AList"
begin

section \<open>Merging tracker identities into pose detections (json_plus_track.py)\<close>

text \<open>
  The development embeds \<^verbatim>\<open>src/3d/json_plus_track.py\<close>: the rectangle utilities
  \<^verbatim>\<open>iou_xyxy\<close> and \<^verbatim>\<open>center_xyxy\<close>, the tracker loader \<^verbatim>\<open>load_botsort\<close>, the
  greedy matcher \<^verbatim>\<open>assign_track_ids\<close> and the driver \<^verbatim>\<open>main\<close>.

  Conventions of the embedding.
  \<^item> A Python \<^verbatim>\<open>float\<close> is a real number: rounding, overflow, infinities and NaN are
    not followed. Where a run would create a non-finite float from the text
    \<^verbatim>\<open>inf\<close> or \<^verbatim>\<open>nan\<close>, the model stops with the marker \<open>NonFiniteFloat\<close>, which is
    not a Python exception.
  \<^item> A Python \<^verbatim>\<open>int\<close> is an \<open>int\<close>.
  \<^item> A raised exception is the value \<open>Inl e\<close>; a normal return is \<open>Inr v\<close>.
  \<^item> The detection collection is what \<^verbatim>\<open>json.load\<close> returns (a tree without
    sharing); the in-place writes of the source are returned as the updated tree.
\<close>

subsection \<open>Exceptions and their propagation\<close>

datatype error =
    TypeError | ValueError | AttributeError | OverflowError | IndexError
  | ZeroDivisionError | NonFiniteFloat

definition ebind :: "error + 'a \<Rightarrow> ('a \<Rightarrow> error + 'b) \<Rightarrow> error + 'b" where
  "ebind m f = (case m of Inl e \<Rightarrow> Inl e | Inr v \<Rightarrow> f v)"

fun emap :: "('a \<Rightarrow> error + 'b) \<Rightarrow> 'a list \<Rightarrow> error + 'b list" where
  "emap f [] = Inr []"
| "emap f (x # xs) = ebind (f x) (\<lambda>y. ebind (emap f xs) (\<lambda>ys. Inr (y # ys)))"

subsection \<open>Values read from JSON and the builtins applied to them\<close>

datatype json =
    JNull | JBool bool | JInt int | JFloat real | JStr string
  | JArr "json list" | JObj "(string \<times> json) list"

type_synonym pydict = "(string \<times> json) list"

text \<open>The float values a text can denote: \<^verbatim>\<open>float("inf")\<close> and \<^verbatim>\<open>float("nan")\<close> exist.\<close>

datatype pyfloat = Finite real | PosInf | NegInf | NaN

definition is_space :: "char \<Rightarrow> bool" where
  "is_space c = ((of_char c :: nat) \<in> {9, 10, 11, 12, 13, 32, 133, 160})"

definition is_digit :: "char \<Rightarrow> bool" where
  "is_digit c = (48 \<le> (of_char c :: nat) \<and> (of_char c :: nat) \<le> 57)"

definition strip :: "string \<Rightarrow> string" where
  "strip s = rev (dropWhile is_space (rev (dropWhile is_space s)))"

text \<open>A run of digits in which single underscores may separate digits (\<^verbatim>\<open>1_000\<close>).\<close>

fun digitpart :: "string \<Rightarrow> bool" where
  "digitpart [] = False"
| "digitpart [c] = is_digit c"
| "digitpart (c # d # cs) =
     (is_digit c \<and> (if d = CHR ''_'' then digitpart cs else digitpart (d # cs)))"

definition digits_val :: "string \<Rightarrow> nat" where
  "digits_val s = foldl (\<lambda>a c. 10 * a + (of_char c - 48)) 0 (filter is_digit s)"

definition split_sign :: "string \<Rightarrow> bool \<times> string" where
  "split_sign s = (case s of
       c # cs \<Rightarrow> if c = CHR ''-'' then (True, cs) else if c = CHR ''+'' then (False, cs) else (False, s)
     | [] \<Rightarrow> (False, s))"

definition eq_ci :: "string \<Rightarrow> string \<Rightarrow> bool" where
  "eq_ci s lower = list_all2 (\<lambda>c l. c = l \<or> (of_char c :: nat) + 32 = of_char l) s lower"

text \<open>\<^verbatim>\<open>int(s)\<close> for a string, base ten.\<close>

definition int_of_str :: "string \<Rightarrow> error + int" where
  "int_of_str s = (case split_sign (strip s) of (neg, body) \<Rightarrow>
       if digitpart body
       then Inr (if neg then - int (digits_val body) else int (digits_val body))
       else Inl ValueError)"

text \<open>
  \<^verbatim>\<open>float(s)\<close> for a string: optional sign, then \<^verbatim>\<open>inf\<close>, \<^verbatim>\<open>infinity\<close>, \<^verbatim>\<open>nan\<close> in
  any letter case, or a decimal number with optional fraction and exponent.
\<close>

definition mantissa_ok :: "string \<Rightarrow> bool" where
  "mantissa_ok m = (let ip = takeWhile (\<lambda>c. c \<noteq> CHR ''.'') m;
                        rest = dropWhile (\<lambda>c. c \<noteq> CHR ''.'') m
     in case rest of
          [] \<Rightarrow> digitpart ip
        | _ # fp \<Rightarrow> (ip = [] \<and> digitpart fp) \<or> (digitpart ip \<and> (fp = [] \<or> digitpart fp)))"

definition mantissa_val :: "string \<Rightarrow> real" where
  "mantissa_val m = (let ip = takeWhile (\<lambda>c. c \<noteq> CHR ''.'') m;
                         fp = drop 1 (dropWhile (\<lambda>c. c \<noteq> CHR ''.'') m)
     in real (digits_val ip) + real (digits_val fp) / 10 ^ length (filter is_digit fp))"

definition is_e :: "char \<Rightarrow> bool" where
  "is_e c = (c = CHR ''e'' \<or> c = CHR ''E'')"

definition number_of_str :: "string \<Rightarrow> real option" where
  "number_of_str body = (let m = takeWhile (\<lambda>c. \<not> is_e c) body;
                             rest = dropWhile (\<lambda>c. \<not> is_e c) body
     in if \<not> mantissa_ok m then None
        else case rest of
          [] \<Rightarrow> Some (mantissa_val m)
        | _ # ex \<Rightarrow> (case split_sign ex of (eneg, ed) \<Rightarrow>
            if \<not> digitpart ed then None
            else if eneg then Some (mantissa_val m / 10 ^ digits_val ed)
            else Some (mantissa_val m * 10 ^ digits_val ed)))"

definition float_of_str :: "string \<Rightarrow> error + pyfloat" where
  "float_of_str s = (case split_sign (strip s) of (neg, body) \<Rightarrow>
       if eq_ci body ''inf'' \<or> eq_ci body ''infinity'' then Inr (if neg then NegInf else PosInf)
       else if eq_ci body ''nan'' then Inr NaN
       else case number_of_str body of
              None \<Rightarrow> Inl ValueError
            | Some r \<Rightarrow> Inr (Finite (if neg then - r else r)))"

text \<open>\<^verbatim>\<open>int(x)\<close> of a float truncates towards zero and rejects the non-finite values.\<close>

definition trunc :: "real \<Rightarrow> int" where
  "trunc r = (if 0 \<le> r then \<lfloor>r\<rfloor> else \<lceil>r\<rceil>)"

definition int_of_pyfloat :: "pyfloat \<Rightarrow> error + int" where
  "int_of_pyfloat x = (case x of
       Finite r \<Rightarrow> Inr (trunc r)
     | NaN \<Rightarrow> Inl ValueError
     | _ \<Rightarrow> Inl OverflowError)"

text \<open>The real-valued model follows finite floats only.\<close>

definition the_finite :: "pyfloat \<Rightarrow> error + real" where
  "the_finite x = (case x of Finite r \<Rightarrow> Inr r | _ \<Rightarrow> Inl NonFiniteFloat)"

text \<open>\<^verbatim>\<open>float(v)\<close> and \<^verbatim>\<open>int(v)\<close> on a JSON value.\<close>

definition py_float :: "json \<Rightarrow> error + real" where
  "py_float v = (case v of
       JInt n \<Rightarrow> Inr (of_int n)
     | JFloat r \<Rightarrow> Inr r
     | JBool b \<Rightarrow> Inr (if b then 1 else 0)
     | JStr s \<Rightarrow> ebind (float_of_str s) the_finite
     | _ \<Rightarrow> Inl TypeError)"

definition py_int :: "json \<Rightarrow> error + int" where
  "py_int v = (case v of
       JInt n \<Rightarrow> Inr n
     | JFloat r \<Rightarrow> Inr (trunc r)
     | JBool b \<Rightarrow> Inr (if b then 1 else 0)
     | JStr s \<Rightarrow> int_of_str s
     | _ \<Rightarrow> Inl TypeError)"

text \<open>Truth value (\<^verbatim>\<open>not v\<close> is its negation), \<^verbatim>\<open>len(v)\<close> and iteration.\<close>

definition truthy :: "json \<Rightarrow> bool" where
  "truthy v = (case v of
       JNull \<Rightarrow> False
     | JBool b \<Rightarrow> b
     | JInt n \<Rightarrow> n \<noteq> 0
     | JFloat r \<Rightarrow> r \<noteq> 0
     | JStr s \<Rightarrow> s \<noteq> []
     | JArr xs \<Rightarrow> xs \<noteq> []
     | JObj kvs \<Rightarrow> kvs \<noteq> [])"

definition py_len :: "json \<Rightarrow> error + nat" where
  "py_len v = (case v of
       JStr s \<Rightarrow> Inr (length s)
     | JArr xs \<Rightarrow> Inr (length xs)
     | JObj kvs \<Rightarrow> Inr (length kvs)
     | _ \<Rightarrow> Inl TypeError)"

definition py_iter :: "json \<Rightarrow> error + json list" where
  "py_iter v = (case v of
       JStr s \<Rightarrow> Inr (map (\<lambda>c. JStr [c]) s)
     | JArr xs \<Rightarrow> Inr xs
     | JObj kvs \<Rightarrow> Inr (map (\<lambda>kv. JStr (fst kv)) kvs)
     | _ \<Rightarrow> Inl TypeError)"

text \<open>\<^verbatim>\<open>d.get(k, default)\<close> on a dict.\<close>

definition dict_get :: "pydict \<Rightarrow> string \<Rightarrow> json \<Rightarrow> json" where
  "dict_get d k dflt = (case map_of d k of None \<Rightarrow> dflt | Some v \<Rightarrow> v)"

text \<open>\<^verbatim>\<open>xs[i]\<close> on a list: a negative index counts from the end.\<close>

definition list_get :: "'a list \<Rightarrow> int \<Rightarrow> error + 'a" where
  "list_get xs i =
     (if 0 \<le> i \<and> i < int (length xs) then Inr (xs ! nat i)
      else if i < 0 \<and> - int (length xs) \<le> i then Inr (xs ! nat (int (length xs) + i))
      else Inl IndexError)"

subsection \<open>Rectangles: \<^verbatim>\<open>iou_xyxy\<close> and \<^verbatim>\<open>center_xyxy\<close>\<close>

type_synonym box = "real \<times> real \<times> real \<times> real"

definition truediv :: "real \<Rightarrow> real \<Rightarrow> error + real" where
  "truediv a b = (if b = 0 then Inl ZeroDivisionError else Inr (a / b))"

definition inter_area :: "box \<Rightarrow> box \<Rightarrow> real" where
  "inter_area a b = (case a of (ax1, ay1, ax2, ay2) \<Rightarrow> case b of (bx1, by1, bx2, by2) \<Rightarrow>
     let inter_x1 = max ax1 bx1;
         inter_y1 = max ay1 by1;
         inter_x2 = min ax2 bx2;
         inter_y2 = min ay2 by2;
         inter_w = max 0 (inter_x2 - inter_x1);
         inter_h = max 0 (inter_y2 - inter_y1)
     in inter_w * inter_h)"

definition box_area :: "box \<Rightarrow> real" where
  "box_area a = (case a of (x1, y1, x2, y2) \<Rightarrow> max 0 (x2 - x1) * max 0 (y2 - y1))"

definition iou_xyxy :: "box \<Rightarrow> box \<Rightarrow> error + real" where
  "iou_xyxy a b =
     (let inter = inter_area a b;
          area_a = box_area a;
          area_b = box_area b;
          denom = area_a + area_b - inter
      in if denom > 0 then truediv inter denom else Inr 0)"

definition center_xyxy :: "box \<Rightarrow> real \<times> real" where
  "center_xyxy b = (case b of (x1, y1, x2, y2) \<Rightarrow> (0.5 * (x1 + x2), 0.5 * (y1 + y2)))"

text \<open>The value \<^verbatim>\<open>iou_xyxy\<close> returns, as the lemma \<open>iou_xyxy_value\<close> shows.\<close>

definition iou :: "box \<Rightarrow> box \<Rightarrow> real" where
  "iou a b = (if box_area a + box_area b - inter_area a b > 0
              then inter_area a b / (box_area a + box_area b - inter_area a b) else 0)"

subsection \<open>The tracker loader: \<^verbatim>\<open>load_botsort\<close>\<close>

record candidate =
  track_id :: int
  bbox_xyxy :: box

type_synonym frame_index = "int \<rightharpoonup> candidate list"

text \<open>\<^verbatim>\<open>int(float(s))\<close> and \<^verbatim>\<open>float(s)\<close> on a field of a row.\<close>

definition int_float :: "string \<Rightarrow> error + int" where
  "int_float s = ebind (float_of_str s) int_of_pyfloat"

definition float_field :: "string \<Rightarrow> error + real" where
  "float_field s = ebind (float_of_str s) the_finite"

text \<open>
  The loop over the rows that \<^verbatim>\<open>csv.reader\<close> yields; \<open>frames\<close> is the dict being
  built, \<^verbatim>\<open>frames.setdefault(frame, []).append(det)\<close> its update.
\<close>

fun load_rows :: "string list list \<Rightarrow> frame_index \<Rightarrow> error + frame_index" where
  "load_rows [] frames = Inr frames"
| "load_rows (row # rows) frames =
     (if row = [] \<or> length row < 6 then load_rows rows frames
      else ebind (int_float (row ! 0)) (\<lambda>frame.
           ebind (int_float (row ! 1)) (\<lambda>tid.
           ebind (float_field (row ! 2)) (\<lambda>x.
           ebind (float_field (row ! 3)) (\<lambda>y.
           ebind (float_field (row ! 4)) (\<lambda>w.
           ebind (float_field (row ! 5)) (\<lambda>h.
             load_rows rows
               (frames(frame \<mapsto>
                  (case frames frame of None \<Rightarrow> [] | Some ds \<Rightarrow> ds)
                    @ [\<lparr>track_id = tid, bbox_xyxy = (x, y, x + w, y + h)\<rparr>])))))))))"

definition load_botsort :: "string list list \<Rightarrow> error + frame_index" where
  "load_botsort rows = load_rows rows Map.empty"

text \<open>
  What \<^verbatim>\<open>csv.reader\<close> makes of one line that holds no quote character: the fields
  between the commas, and no field at all for an empty line.
\<close>

fun split_on :: "char \<Rightarrow> string \<Rightarrow> string list" where
  "split_on c [] = [[]]"
| "split_on c (x # xs) =
     (if x = c then [] # split_on c xs
      else case split_on c xs of w # ws \<Rightarrow> (x # w) # ws | [] \<Rightarrow> [[x]])"

definition csv_row :: "string \<Rightarrow> string list" where
  "csv_row line = (if line = [] then [] else split_on CHR '','' line)"

subsection \<open>The matcher: \<^verbatim>\<open>assign_track_ids\<close>\<close>

record stats =
  matched_iou :: int
  matched_center :: int
  no_candidate :: int

definition enumerate_py :: "'a list \<Rightarrow> (int \<times> 'a) list" where
  "enumerate_py xs = zip (map int [0..<length xs]) xs"

text \<open>
  Phase 1, the loop \<^verbatim>\<open>for idx, d in enumerate(dets)\<close> with the running pair
  \<^verbatim>\<open>(best_iou, best_idx)\<close>.
\<close>

fun iou_scan :: "box \<Rightarrow> int set \<Rightarrow> (int \<times> candidate) list \<Rightarrow> real \<times> int \<Rightarrow> error + real \<times> int" where
  "iou_scan bb used [] best = Inr best"
| "iou_scan bb used ((idx, d) # rest) best =
     (if idx \<in> used then iou_scan bb used rest best
      else ebind (iou_xyxy bb (bbox_xyxy d)) (\<lambda>v.
             if v > fst best then iou_scan bb used rest (v, idx)
             else iou_scan bb used rest best))"

text \<open>
  Phase 2, the loop with the running pair \<^verbatim>\<open>(best_d2, best_idx2)\<close>; \<open>None\<close> is the
  initial \<^verbatim>\<open>float("inf")\<close>, above every distance.
\<close>

definition below :: "real \<Rightarrow> real option \<Rightarrow> bool" where
  "below d2 best_d2 = (case best_d2 of None \<Rightarrow> True | Some b \<Rightarrow> d2 < b)"

definition center_d2 :: "real \<Rightarrow> real \<Rightarrow> box \<Rightarrow> real" where
  "center_d2 cx cy b = (case center_xyxy b of (dcx, dcy) \<Rightarrow> (cx - dcx)\<^sup>2 + (cy - dcy)\<^sup>2)"

fun center_scan :: "real \<Rightarrow> real \<Rightarrow> int set \<Rightarrow> (int \<times> candidate) list \<Rightarrow> real option \<times> int
    \<Rightarrow> real option \<times> int" where
  "center_scan cx cy used [] best = best"
| "center_scan cx cy used ((idx, d) # rest) best =
     (if idx \<in> used then center_scan cx cy used rest best
      else if below (center_d2 cx cy (bbox_xyxy d)) (fst best)
           then center_scan cx cy used rest (Some (center_d2 cx cy (bbox_xyxy d)), idx)
           else center_scan cx cy used rest best)"

text \<open>The guard \<^verbatim>\<open>not bbox or len(bbox) != 4 or not dets\<close>, evaluated left to right.\<close>

definition bbox_unusable :: "json \<Rightarrow> candidate list \<Rightarrow> error + bool" where
  "bbox_unusable bbox dets =
     (if \<not> truthy bbox then Inr True
      else ebind (py_len bbox) (\<lambda>n. Inr (n \<noteq> 4 \<or> dets = [])))"

text \<open>
  \<^verbatim>\<open>bb = tuple(map(float, bbox))\<close>, with the unpacking into four numbers that
  \<^verbatim>\<open>iou_xyxy\<close> and \<^verbatim>\<open>center_xyxy\<close> do on it (after the guard the tuple has four
  elements, so the unpacking does not fail).
\<close>

definition box_of :: "json \<Rightarrow> error + box" where
  "box_of bbox = ebind (py_iter bbox) (\<lambda>xs. ebind (emap py_float xs) (\<lambda>fs.
     case fs of [a, b, c, d] \<Rightarrow> Inr (a, b, c, d) | _ \<Rightarrow> Inl ValueError))"

text \<open>The three ways one instance ends: each writes \<^verbatim>\<open>track_id\<close> and bumps one counter.\<close>

definition unmatched :: "pydict \<Rightarrow> int set \<Rightarrow> stats \<Rightarrow> error + json \<times> int set \<times> stats" where
  "unmatched kvs used st =
     Inr (JObj (AList.update ''track_id'' (JInt (- 1)) kvs), used,
          st\<lparr>no_candidate := no_candidate st + 1\<rparr>)"

definition take_iou :: "candidate list \<Rightarrow> int \<Rightarrow> pydict \<Rightarrow> int set \<Rightarrow> stats
    \<Rightarrow> error + json \<times> int set \<times> stats" where
  "take_iou dets best_idx kvs used st = ebind (list_get dets best_idx) (\<lambda>d.
     Inr (JObj (AList.update ''track_id'' (JInt (track_id d)) kvs), insert best_idx used,
          st\<lparr>matched_iou := matched_iou st + 1\<rparr>))"

definition take_center :: "candidate list \<Rightarrow> int \<Rightarrow> pydict \<Rightarrow> int set \<Rightarrow> stats
    \<Rightarrow> error + json \<times> int set \<times> stats" where
  "take_center dets best_idx2 kvs used st = ebind (list_get dets best_idx2) (\<lambda>d.
     Inr (JObj (AList.update ''track_id'' (JInt (track_id d)) kvs), insert best_idx2 used,
          st\<lparr>matched_center := matched_center st + 1\<rparr>))"

definition center_fallback :: "bool \<Rightarrow> candidate list \<Rightarrow> box \<Rightarrow> pydict \<Rightarrow> int set \<Rightarrow> stats
    \<Rightarrow> error + json \<times> int set \<times> stats" where
  "center_fallback use_center_fallback dets bb kvs used st =
     (if use_center_fallback \<and> dets \<noteq> []
      then case center_xyxy bb of (cx, cy) \<Rightarrow>
             case center_scan cx cy used (enumerate_py dets) (None, - 1) of (best_d2, best_idx2) \<Rightarrow>
               if best_idx2 \<noteq> - 1 then take_center dets best_idx2 kvs used st
               else unmatched kvs used st
      else unmatched kvs used st)"

text \<open>The body of \<^verbatim>\<open>for inst in instances\<close>; \<open>used\<close> and the counters are threaded.\<close>

definition assign_inst :: "real \<Rightarrow> bool \<Rightarrow> candidate list \<Rightarrow> json \<Rightarrow> int set \<times> stats
    \<Rightarrow> error + json \<times> int set \<times> stats" where
  "assign_inst min_iou use_center_fallback dets inst us =
     (case us of (used, st) \<Rightarrow>
      case inst of
        JObj kvs \<Rightarrow>
          ebind (bbox_unusable (dict_get kvs ''bbox'' JNull) dets) (\<lambda>skip.
            if skip then unmatched kvs used st
            else ebind (box_of (dict_get kvs ''bbox'' JNull)) (\<lambda>bb.
                 ebind (iou_scan bb used (enumerate_py dets) (- 1, - 1)) (\<lambda>best.
                   if snd best \<noteq> - 1 \<and> fst best \<ge> max 0 min_iou
                   then take_iou dets (snd best) kvs used st
                   else center_fallback use_center_fallback dets bb kvs used st)))
      | _ \<Rightarrow> Inl AttributeError)"

fun assign_insts :: "real \<Rightarrow> bool \<Rightarrow> candidate list \<Rightarrow> json list \<Rightarrow> int set \<times> stats
    \<Rightarrow> error + json list \<times> int set \<times> stats" where
  "assign_insts min_iou ucf dets [] us = Inr ([], us)"
| "assign_insts min_iou ucf dets (inst # rest) us =
     ebind (assign_inst min_iou ucf dets inst us) (\<lambda>(inst', us').
     ebind (assign_insts min_iou ucf dets rest us') (\<lambda>(rest', us'').
       Inr (inst' # rest', us'')))"

text \<open>
  The body of \<^verbatim>\<open>for entry in kp_frames\<close>. The instances are updated in place inside
  the list stored under \<^verbatim>\<open>instances\<close>; when the key is absent the default \<^verbatim>\<open>[]\<close> is
  iterated and the entry stays as it is. Iterating a string or a dict yields
  strings, on which \<^verbatim>\<open>inst.get\<close> raises, so only a list is ever written back.
\<close>

definition store_instances :: "pydict \<Rightarrow> json \<Rightarrow> json list \<Rightarrow> pydict" where
  "store_instances entry v insts' =
     (case v of JArr _ \<Rightarrow> AList.update ''instances'' (JArr insts') entry | _ \<Rightarrow> entry)"

definition assign_entry :: "real \<Rightarrow> bool \<Rightarrow> frame_index \<Rightarrow> pydict \<Rightarrow> stats
    \<Rightarrow> error + pydict \<times> stats" where
  "assign_entry min_iou ucf botsort_frames entry st =
     ebind (py_int (dict_get entry ''frame_id'' (JInt (- 1)))) (\<lambda>frame_id.
       let dets = (case botsort_frames frame_id of None \<Rightarrow> [] | Some ds \<Rightarrow> ds)
       in case map_of entry ''instances'' of
            None \<Rightarrow> Inr (entry, st)
          | Some v \<Rightarrow>
              ebind (py_iter v) (\<lambda>instances.
              ebind (assign_insts min_iou ucf dets instances ({}, st)) (\<lambda>(insts', used, st').
                Inr (store_instances entry v insts', st'))))"

fun assign_entries :: "real \<Rightarrow> bool \<Rightarrow> frame_index \<Rightarrow> pydict list \<Rightarrow> stats
    \<Rightarrow> error + pydict list \<times> stats" where
  "assign_entries min_iou ucf botsort_frames [] st = Inr ([], st)"
| "assign_entries min_iou ucf botsort_frames (entry # rest) st =
     ebind (assign_entry min_iou ucf botsort_frames entry st) (\<lambda>(entry', st').
     ebind (assign_entries min_iou ucf botsort_frames rest st') (\<lambda>(rest', st'').
       Inr (entry' # rest', st'')))"

text \<open>
  \<^verbatim>\<open>assign_track_ids\<close> returns the statistics and leaves the collection updated;
  the model returns both.
\<close>

definition assign_track_ids :: "pydict list \<Rightarrow> frame_index \<Rightarrow> real \<Rightarrow> bool
    \<Rightarrow> error + pydict list \<times> stats" where
  "assign_track_ids kp_frames botsort_frames min_iou use_center_fallback =
     assign_entries min_iou use_center_fallback botsort_frames kp_frames
       \<lparr>matched_iou = 0, matched_center = 0, no_candidate = 0\<rparr>"

text \<open>
  \<^verbatim>\<open>main\<close>: the tracker file is loaded first, then the collection is merged, and
  only then the output file is written; \<open>Inl e\<close> is a run that wrote nothing.
\<close>

definition main_run :: "string list \<Rightarrow> pydict list \<Rightarrow> real \<Rightarrow> bool \<Rightarrow> error + pydict list \<times> stats" where
  "main_run botsort_lines kp_frames min_iou use_center_fallback =
     ebind (load_botsort (map csv_row botsort_lines)) (\<lambda>botsort_frames.
       assign_track_ids kp_frames botsort_frames min_iou use_center_fallback)"

subsection \<open>Notions used in the statements\<close>




text \<open>The scan stopped on index \<open>i\<close> with value \<open>b\<close>: every eligible entry before it is strictly smaller, every eligible entry after it is at most as large.\<close>

definition scan_hit :: "(candidate \<Rightarrow> real) \<Rightarrow> int set \<Rightarrow> (int \<times> candidate) list \<Rightarrow> real \<Rightarrow> int \<Rightarrow> bool" where
  "scan_hit f used ps b i = (\<exists>pre d post. ps = pre @ (i, d) # post \<and> i \<notin> used \<and> b = f d \<and>
      (\<forall>(j, e) \<in> set pre. j \<notin> used \<longrightarrow> f e < b) \<and>
      (\<forall>(j, e) \<in> set post. j \<notin> used \<longrightarrow> f e \<le> b))"

text \<open>Candidate \<open>k\<close> of the frame is still eligible.\<close>

definition unconsumed :: "int set \<Rightarrow> candidate list \<Rightarrow> nat \<Rightarrow> bool" where
  "unconsumed used dets k = (k < length dets \<and> int k \<notin> used)"

text \<open>The first eligible candidate among those of maximal score.\<close>

definition stable_argmax :: "(candidate \<Rightarrow> real) \<Rightarrow> int set \<Rightarrow> candidate list \<Rightarrow> nat \<Rightarrow> bool" where
  "stable_argmax f used dets k =
     (unconsumed used dets k \<and>
      (\<forall>j<length dets. unconsumed used dets j \<longrightarrow> f (dets ! j) \<le> f (dets ! k)) \<and>
      (\<forall>j<k. unconsumed used dets j \<longrightarrow> f (dets ! j) < f (dets ! k)))"

text \<open>The first eligible candidate among those of minimal score.\<close>

definition stable_argmin :: "(candidate \<Rightarrow> real) \<Rightarrow> int set \<Rightarrow> candidate list \<Rightarrow> nat \<Rightarrow> bool" where
  "stable_argmin f used dets k =
     (unconsumed used dets k \<and>
      (\<forall>j<length dets. unconsumed used dets j \<longrightarrow> f (dets ! k) \<le> f (dets ! j)) \<and>
      (\<forall>j<k. unconsumed used dets j \<longrightarrow> f (dets ! k) < f (dets ! j)))"

text \<open>The guard lets the instance through and its box converts to four numbers.\<close>

definition usable_box :: "pydict \<Rightarrow> box \<Rightarrow> bool" where
  "usable_box kvs bb = (truthy (dict_get kvs ''bbox'' JNull) \<and>
     py_len (dict_get kvs ''bbox'' JNull) = Inr 4 \<and> box_of (dict_get kvs ''bbox'' JNull) = Inr bb)"

text \<open>\<^verbatim>\<open>inst["track_id"] = t\<close> on the dict \<open>kvs\<close>.\<close>

definition set_track_id :: "int \<Rightarrow> pydict \<Rightarrow> json" where
  "set_track_id t kvs = JObj (AList.update ''track_id'' (JInt t) kvs)"

text \<open>The three counter updates.\<close>

definition bump_iou :: "stats \<Rightarrow> stats" where
  "bump_iou st = st\<lparr>matched_iou := matched_iou st + 1\<rparr>"

definition bump_center :: "stats \<Rightarrow> stats" where
  "bump_center st = st\<lparr>matched_center := matched_center st + 1\<rparr>"

definition bump_none :: "stats \<Rightarrow> stats" where
  "bump_none st = st\<lparr>no_candidate := no_candidate st + 1\<rparr>"

text \<open>How much each counter grew.\<close>

definition counter_deltas :: "stats \<Rightarrow> stats \<Rightarrow> int \<times> int \<times> int" where
  "counter_deltas st st' = (matched_iou st' - matched_iou st,
     matched_center st' - matched_center st, no_candidate st' - no_candidate st)"

definition counter_sum :: "stats \<Rightarrow> int" where
  "counter_sum st = matched_iou st + matched_center st + no_candidate st"

text \<open>The number of instances the loop iterates in one entry.\<close>

definition instance_count :: "pydict \<Rightarrow> nat" where
  "instance_count entry = (case map_of entry ''instances'' of
       None \<Rightarrow> 0
     | Some v \<Rightarrow> (case py_iter v of Inl e \<Rightarrow> 0 | Inr instances \<Rightarrow> length instances))"

definition total_instances :: "pydict list \<Rightarrow> nat" where
  "total_instances kp_frames = sum_list (map instance_count kp_frames)"

text \<open>\<^verbatim>\<open>botsort_frames.get(frame_id, [])\<close> for the frame of an entry.\<close>

definition frame_dets :: "frame_index \<Rightarrow> pydict \<Rightarrow> candidate list" where
  "frame_dets botsort_frames entry =
     (case py_int (dict_get entry ''frame_id'' (JInt (- 1))) of
        Inl e \<Rightarrow> []
      | Inr frame_id \<Rightarrow> (case botsort_frames frame_id of None \<Rightarrow> [] | Some ds \<Rightarrow> ds))"

text \<open>An instance without its \<^verbatim>\<open>track_id\<close> key.\<close>

definition drop_track_id :: "json \<Rightarrow> json" where
  "drop_track_id inst = (case inst of JObj kvs \<Rightarrow> JObj (AList.delete ''track_id'' kvs) | _ \<Rightarrow> inst)"

definition drop_in_value :: "json \<Rightarrow> json" where
  "drop_in_value v = (case v of JArr instances \<Rightarrow> JArr (map drop_track_id instances) | _ \<Rightarrow> v)"

definition drop_in_entry :: "pydict \<Rightarrow> pydict" where
  "drop_in_entry entry =
     map (\<lambda>kv. if fst kv = ''instances'' then (fst kv, drop_in_value (snd kv)) else kv) entry"

text \<open>The collection with the \<^verbatim>\<open>track_id\<close> key erased from every instance.\<close>

definition without_track_ids :: "pydict list \<Rightarrow> pydict list" where
  "without_track_ids kp_frames = map drop_in_entry kp_frames"

text \<open>The integer stored under \<^verbatim>\<open>track_id\<close>, if any.\<close>

definition inst_track_id :: "json \<Rightarrow> int option" where
  "inst_track_id inst = (case inst of
       JObj kvs \<Rightarrow> (case map_of kvs ''track_id'' of Some (JInt t) \<Rightarrow> Some t | _ \<Rightarrow> None)
     | _ \<Rightarrow> None)"

text \<open>The non-negative track ids of a list of instances, in order.\<close>

definition assigned_ids :: "json list \<Rightarrow> int list" where
  "assigned_ids instances = filter (\<lambda>t. 0 \<le> t) (List.map_filter inst_track_id instances)"

definition entry_assigned_ids :: "pydict \<Rightarrow> int list" where
  "entry_assigned_ids entry = (case map_of entry ''instances'' of
       Some (JArr instances) \<Rightarrow> assigned_ids instances | _ \<Rightarrow> [])"

text \<open>No frame lists one track id twice.\<close>

definition distinct_candidates :: "frame_index \<Rightarrow> bool" where
  "distinct_candidates botsort_frames =
     (\<forall>frame_id dets. botsort_frames frame_id = Some dets \<longrightarrow> distinct (map track_id dets))"

text \<open>The counters at the start of a run.\<close>

definition zero_stats :: stats where
  "zero_stats = \<lparr>matched_iou = 0, matched_center = 0, no_candidate = 0\<rparr>"



text \<open>The \<^verbatim>\<open>bbox\<close> is missing or falsy, or has a length other than four.\<close>

definition lacks_box :: "pydict \<Rightarrow> bool" where
  "lacks_box kvs = (\<not> truthy (dict_get kvs ''bbox'' JNull) \<or>
     (case py_len (dict_get kvs ''bbox'' JNull) of Inl e \<Rightarrow> False | Inr n \<Rightarrow> n \<noteq> 4))"

subsection \<open>Example data\<close>

text \<open>Example data: an instance with a box and one pass-through attribute.\<close>

definition example_instance :: "int list \<Rightarrow> json" where
  "example_instance b = JObj [(''bbox'', JArr (map JInt b)), (''keypoints'', JArr [JFloat 1.5, JFloat 2])]"

definition example_tagged :: "int list \<Rightarrow> int \<Rightarrow> json" where
  "example_tagged b t = JObj [(''bbox'', JArr (map JInt b)),
     (''keypoints'', JArr [JFloat 1.5, JFloat 2]), (''track_id'', JInt t)]"

definition example_frame :: "json list \<Rightarrow> pydict" where
  "example_frame instances = [(''frame_id'', JInt 1), (''instances'', JArr instances)]"

text \<open>Two detections contend for one candidate.\<close>

definition contended_frames :: "pydict list" where
  "contended_frames = [example_frame [example_instance [0, 0, 10, 10], example_instance [0, 0, 10, 10]]]"

definition contended_index :: frame_index where
  "contended_index = [1 \<mapsto> [\<lparr>track_id = 5, bbox_xyxy = (0, 0, 10, 10)\<rparr>]]"

text \<open>Two candidates of one frame carry the same identity.\<close>

definition twin_frames :: "pydict list" where
  "twin_frames = [example_frame [example_instance [0, 0, 10, 10], example_instance [20, 20, 30, 30]]]"

definition twin_lines :: "string list" where
  "twin_lines = [''1,7,0,0,10,10'', ''1,7,20,20,10,10'']"



text \<open>One candidate far from the detection.\<close>

definition far_candidates :: "candidate list" where
  "far_candidates = [\<lparr>track_id = 9, bbox_xyxy = (50, 50, 60, 60)\<rparr>]"


text \<open>A detection whose box holds four non-numeric strings.\<close>

definition letters_frames :: "pydict list" where
  "letters_frames = [example_frame [JObj [(''bbox'', JArr [JStr ''a'', JStr ''b'', JStr ''c'', JStr ''d''])]]]"

section \<open>Properties\<close>

subsection \<open>Error propagation\<close>

lemma ebind_Inr [simp]: "ebind (Inr v) f = f v"
  by (simp add: ebind_def)

lemma ebind_Inl [simp]: "ebind (Inl e) f = Inl e"
  by (simp add: ebind_def)

subsection \<open>The rectangle utilities\<close>

lemma iou_xyxy_value: "iou_xyxy a b = Inr (iou a b)"
  by (simp add: iou_xyxy_def iou_def truediv_def Let_def)

lemma inter_area_nonneg: "0 \<le> inter_area a b"
  by (cases a, cases b) (simp add: inter_area_def Let_def)

lemma box_area_nonneg: "0 \<le> box_area a"
  by (cases a) (simp add: box_area_def)








lemma iou_nonneg: "0 \<le> iou a b"
  by (simp add: iou_def inter_area_nonneg)



subsection \<open>Evaluated examples\<close>

lemma contended_run:
  "assign_track_ids contended_frames contended_index 0 False
     = Inr ([example_frame [example_tagged [0, 0, 10, 10] 5, example_tagged [0, 0, 10, 10] (- 1)]],
            \<lparr>matched_iou = 1, matched_center = 0, no_candidate = 1\<rparr>)"
  by code_simp

lemma contended_step:
  "assign_inst 0 False [\<lparr>track_id = 5, bbox_xyxy = (0, 0, 10, 10)\<rparr>]
     (example_instance [0, 0, 10, 10]) ({}, zero_stats)
     = Inr (example_tagged [0, 0, 10, 10] 5, {0}, \<lparr>matched_iou = 1, matched_center = 0, no_candidate = 0\<rparr>)"
  by code_simp







lemma no_box_lacks: "lacks_box [(''keypoints'', JArr [JFloat 1.5, JFloat 2])]"
  by code_simp

lemma distinct_candidates_contended: "distinct_candidates contended_index"
  by (simp add: distinct_candidates_def contended_index_def)

lemma abc_row: "csv_row ''abc,1,2,3,4,5'' = [''abc'', ''1'', ''2'', ''3'', ''4'', ''5'']"
  by code_simp

lemma abc_not_numeric: "float_of_str ''abc'' = Inl ValueError"
  by code_simp

lemma abc_load: "load_botsort (map csv_row [''abc,1,2,3,4,5'']) = Inl ValueError"
  by (simp add: load_botsort_def abc_row int_float_def abc_not_numeric)

subsection \<open>The two scans\<close>

lemma length_enumerate_py [simp]: "length (enumerate_py xs) = length xs"
  by (simp add: enumerate_py_def)

lemma enumerate_py_nth: "n < length xs \<Longrightarrow> enumerate_py xs ! n = (int n, xs ! n)"
  by (simp add: enumerate_py_def)

lemma enumerate_py_mem:
  "(j, d) \<in> set (enumerate_py dets) \<longleftrightarrow> (\<exists>k<length dets. j = int k \<and> d = dets ! k)"
proof
  assume "(j, d) \<in> set (enumerate_py dets)"
  then obtain n where "n < length (enumerate_py dets)" "enumerate_py dets ! n = (j, d)"
    by (auto simp: in_set_conv_nth)
  then show "\<exists>k<length dets. j = int k \<and> d = dets ! k"
    using enumerate_py_nth [of n dets] by auto
next
  assume "\<exists>k<length dets. j = int k \<and> d = dets ! k"
  then obtain k where k: "k < length dets" "j = int k" "d = dets ! k" by blast
  then have "enumerate_py dets ! k = (j, d)" by (simp add: enumerate_py_nth)
  moreover have "k < length (enumerate_py dets)" using k by simp
  ultimately show "(j, d) \<in> set (enumerate_py dets)" by (metis nth_mem)
qed

lemma list_get_nat: "k < length xs \<Longrightarrow> list_get xs (int k) = Inr (xs ! k)"
  by (simp add: list_get_def)

lemma scan_hit_skip: "scan_hit f used ps b i \<Longrightarrow> j \<in> used \<Longrightarrow> scan_hit f used ((j, d) # ps) b i"
  unfolding scan_hit_def
  apply (elim exE conjE)
  subgoal for pre d' post
    by (rule exI [of _ "(j, d) # pre"], rule exI [of _ d'], rule exI [of _ post]) simp
  done

lemma scan_hit_later: "scan_hit f used ps b i \<Longrightarrow> f d < b \<Longrightarrow> scan_hit f used ((j, d) # ps) b i"
  unfolding scan_hit_def
  apply (elim exE conjE)
  subgoal for pre d' post
    by (rule exI [of _ "(j, d) # pre"], rule exI [of _ d'], rule exI [of _ post]) simp
  done

lemma scan_hit_here:
  "j \<notin> used \<Longrightarrow> \<forall>(k, e) \<in> set ps. k \<notin> used \<longrightarrow> f e \<le> f d \<Longrightarrow> scan_hit f used ((j, d) # ps) (f d) j"
  unfolding scan_hit_def
  by (rule exI [of _ "[]"], rule exI [of _ d], rule exI [of _ ps]) simp

lemma scan_hit_enumerate:
  assumes "scan_hit f used (enumerate_py dets) b i"
  shows "\<exists>k. i = int k \<and> stable_argmax f used dets k \<and> b = f (dets ! k)"
proof -
  from assms obtain pre d post where
    ps: "enumerate_py dets = pre @ (i, d) # post" and iu: "i \<notin> used" and b: "b = f d" and
    before: "\<forall>(j, e) \<in> set pre. j \<notin> used \<longrightarrow> f e < b" and
    after: "\<forall>(j, e) \<in> set post. j \<notin> used \<longrightarrow> f e \<le> b"
    unfolding scan_hit_def by blast
  let ?k = "length pre"
  have len: "length dets = length pre + Suc (length post)"
    using arg_cong [OF ps, of length] by simp
  then have k: "?k < length dets" by simp
  have "enumerate_py dets ! ?k = (i, d)" by (simp add: ps)
  then have id: "i = int ?k" "d = dets ! ?k"
    using enumerate_py_nth [OF k] by simp_all
  have lo: "f (dets ! j) < b" if "j < ?k" "int j \<notin> used" for j
  proof -
    have "enumerate_py dets ! j = pre ! j" using that by (simp add: ps nth_append)
    moreover have "enumerate_py dets ! j = (int j, dets ! j)"
      using that k by (intro enumerate_py_nth) simp
    ultimately have "(int j, dets ! j) \<in> set pre" using that by (metis nth_mem)
    then show ?thesis using before that by auto
  qed
  have hi: "f (dets ! j) \<le> b" if "?k < j" "j < length dets" "int j \<notin> used" for j
  proof -
    have "enumerate_py dets ! j = post ! (j - Suc ?k)"
      using that by (simp add: ps nth_append nth_Cons')
    moreover have "enumerate_py dets ! j = (int j, dets ! j)"
      using that by (intro enumerate_py_nth) simp
    moreover have "j - Suc ?k < length post" using that len by simp
    ultimately have "(int j, dets ! j) \<in> set post" by (metis nth_mem)
    then show ?thesis using after that by auto
  qed
  have "stable_argmax f used dets ?k"
    unfolding stable_argmax_def unconsumed_def
  proof (intro conjI allI impI)
    show "?k < length dets" by (rule k)
    show "int ?k \<notin> used" using iu id by simp
  next
    fix j assume "j < length dets" "j < length dets \<and> int j \<notin> used"
    then show "f (dets ! j) \<le> f (dets ! ?k)"
      using lo [of j] hi [of j] b id by (cases "j < ?k"; cases "j = ?k") (auto simp: not_less)
  next
    fix j assume "j < ?k" "j < length dets \<and> int j \<notin> used"
    then show "f (dets ! j) < f (dets ! ?k)" using lo [of j] b id by simp
  qed
  then show ?thesis using id b by blast
qed

lemma stable_argmin_neg: "stable_argmin f used dets k = stable_argmax (\<lambda>d. - f d) used dets k"
  by (simp add: stable_argmin_def stable_argmax_def)


lemma iou_scan_cases:
  "\<exists>b i. iou_scan bb used ps (b0, i0) = Inr (b, i) \<and>
     ((b = b0 \<and> i = i0 \<and> (\<forall>(j, d) \<in> set ps. j \<notin> used \<longrightarrow> iou bb (bbox_xyxy d) \<le> b0))
      \<or> (b0 < b \<and> scan_hit (\<lambda>d. iou bb (bbox_xyxy d)) used ps b i))"
proof (induction ps arbitrary: b0 i0)
  case Nil
  show ?case by simp
next
  case (Cons p ps)
  obtain j d where p: "p = (j, d)" by (cases p)
  let ?f = "\<lambda>d. iou bb (bbox_xyxy d)"
  show ?case
  proof (cases "j \<in> used")
    case True
    from Cons.IH [of b0 i0] obtain b i where
      r: "iou_scan bb used ps (b0, i0) = Inr (b, i)" and
      c: "(b = b0 \<and> i = i0 \<and> (\<forall>(j, d) \<in> set ps. j \<notin> used \<longrightarrow> ?f d \<le> b0))
          \<or> (b0 < b \<and> scan_hit ?f used ps b i)" by blast
    have "iou_scan bb used (p # ps) (b0, i0) = Inr (b, i)"
      using True r by (simp add: p)
    moreover have "(b = b0 \<and> i = i0 \<and> (\<forall>(j, d) \<in> set (p # ps). j \<notin> used \<longrightarrow> ?f d \<le> b0))
          \<or> (b0 < b \<and> scan_hit ?f used (p # ps) b i)"
      using c True by (auto simp: p intro: scan_hit_skip)
    ultimately show ?thesis by blast
  next
    case False
    show ?thesis
    proof (cases "?f d > b0")
      case better: True
      from Cons.IH [of "?f d" j] obtain b i where
        r: "iou_scan bb used ps (?f d, j) = Inr (b, i)" and
        c: "(b = ?f d \<and> i = j \<and> (\<forall>(j, e) \<in> set ps. j \<notin> used \<longrightarrow> ?f e \<le> ?f d))
            \<or> (?f d < b \<and> scan_hit ?f used ps b i)" by blast
      have "iou_scan bb used (p # ps) (b0, i0) = Inr (b, i)"
        using False better r by (simp add: p iou_xyxy_value)
      moreover have "b0 < b \<and> scan_hit ?f used (p # ps) b i"
        using c
      proof
        assume h: "b = ?f d \<and> i = j \<and> (\<forall>(j, e) \<in> set ps. j \<notin> used \<longrightarrow> ?f e \<le> ?f d)"
        then have "scan_hit ?f used ((j, d) # ps) (?f d) j"
          using False by (intro scan_hit_here) auto
        then show ?thesis using h better by (simp add: p)
      next
        assume h: "?f d < b \<and> scan_hit ?f used ps b i"
        then have "scan_hit ?f used ((j, d) # ps) b i"
          by (intro scan_hit_later) auto
        then show ?thesis using h better by (simp add: p)
      qed
      ultimately show ?thesis by blast
    next
      case worse: False
      from Cons.IH [of b0 i0] obtain b i where
        r: "iou_scan bb used ps (b0, i0) = Inr (b, i)" and
        c: "(b = b0 \<and> i = i0 \<and> (\<forall>(j, d) \<in> set ps. j \<notin> used \<longrightarrow> ?f d \<le> b0))
            \<or> (b0 < b \<and> scan_hit ?f used ps b i)" by blast
      have "iou_scan bb used (p # ps) (b0, i0) = Inr (b, i)"
        using False worse r by (simp add: p iou_xyxy_value)
      moreover have "(b = b0 \<and> i = i0 \<and> (\<forall>(j, d) \<in> set (p # ps). j \<notin> used \<longrightarrow> ?f d \<le> b0))
            \<or> (b0 < b \<and> scan_hit ?f used (p # ps) b i)"
        using c
      proof
        assume "b = b0 \<and> i = i0 \<and> (\<forall>(j, d) \<in> set ps. j \<notin> used \<longrightarrow> ?f d \<le> b0)"
        then show ?thesis using worse by (auto simp: p)
      next
        assume h: "b0 < b \<and> scan_hit ?f used ps b i"
        then have "scan_hit ?f used ((j, d) # ps) b i"
          using worse by (intro scan_hit_later) auto
        then show ?thesis using h by (simp add: p)
      qed
      ultimately show ?thesis by blast
    qed
  qed
qed

lemma iou_scan_none:
  assumes "\<not> (\<exists>k. unconsumed used dets k)"
  shows "iou_scan bb used (enumerate_py dets) (- 1, - 1) = Inr (- 1, - 1)"
proof -
  let ?f = "\<lambda>d. iou bb (bbox_xyxy d)"
  from iou_scan_cases [of bb used "enumerate_py dets" "- 1" "- 1"] obtain b i where
    r: "iou_scan bb used (enumerate_py dets) (- 1, - 1) = Inr (b, i)" and
    c: "(b = - 1 \<and> i = - 1 \<and> (\<forall>(j, d) \<in> set (enumerate_py dets). j \<notin> used \<longrightarrow> ?f d \<le> - 1))
        \<or> (- 1 < b \<and> scan_hit ?f used (enumerate_py dets) b i)" by blast
  from c show ?thesis
  proof
    assume "b = - 1 \<and> i = - 1 \<and> (\<forall>(j, d) \<in> set (enumerate_py dets). j \<notin> used \<longrightarrow> ?f d \<le> - 1)"
    then show ?thesis using r by simp
  next
    assume "- 1 < b \<and> scan_hit ?f used (enumerate_py dets) b i"
    then obtain k where "stable_argmax ?f used dets k"
      using scan_hit_enumerate by blast
    then have False using assms by (auto simp: stable_argmax_def)
    then show ?thesis ..
  qed
qed

lemma iou_scan_some:
  assumes "unconsumed used dets k0"
  shows "\<exists>k. stable_argmax (\<lambda>d. iou bb (bbox_xyxy d)) used dets k \<and>
     iou_scan bb used (enumerate_py dets) (- 1, - 1) = Inr (iou bb (bbox_xyxy (dets ! k)), int k)"
proof -
  let ?f = "\<lambda>d. iou bb (bbox_xyxy d)"
  from iou_scan_cases [of bb used "enumerate_py dets" "- 1" "- 1"] obtain b i where
    r: "iou_scan bb used (enumerate_py dets) (- 1, - 1) = Inr (b, i)" and
    c: "(b = - 1 \<and> i = - 1 \<and> (\<forall>(j, d) \<in> set (enumerate_py dets). j \<notin> used \<longrightarrow> ?f d \<le> - 1))
        \<or> (- 1 < b \<and> scan_hit ?f used (enumerate_py dets) b i)" by blast
  from c show ?thesis
  proof
    assume h: "b = - 1 \<and> i = - 1 \<and> (\<forall>(j, d) \<in> set (enumerate_py dets). j \<notin> used \<longrightarrow> ?f d \<le> - 1)"
    have "(int k0, dets ! k0) \<in> set (enumerate_py dets)"
      using assms by (auto simp: enumerate_py_mem unconsumed_def)
    then have "?f (dets ! k0) \<le> - 1" using h assms by (auto simp: unconsumed_def)
    moreover have "0 \<le> ?f (dets ! k0)" by (rule iou_nonneg)
    ultimately have False by simp
    then show ?thesis ..
  next
    assume "- 1 < b \<and> scan_hit ?f used (enumerate_py dets) b i"
    then obtain k where "i = int k" "stable_argmax ?f used dets k" "b = ?f (dets ! k)"
      using scan_hit_enumerate by blast
    then show ?thesis using r by blast
  qed
qed

lemma below_trans: "below v (Some w) \<Longrightarrow> below w b0 \<Longrightarrow> below v b0"
  by (cases b0) (simp_all add: below_def)

lemma center_scan_cases:
  "\<exists>b i. center_scan cx cy used ps (b0, i0) = (b, i) \<and>
     ((b = b0 \<and> i = i0 \<and>
        (\<forall>(j, d) \<in> set ps. j \<notin> used \<longrightarrow> \<not> below (center_d2 cx cy (bbox_xyxy d)) b0))
      \<or> (\<exists>v. b = Some v \<and> below v b0 \<and>
            scan_hit (\<lambda>d. - center_d2 cx cy (bbox_xyxy d)) used ps (- v) i))"
proof (induction ps arbitrary: b0 i0)
  case Nil
  show ?case by simp
next
  case (Cons p ps)
  obtain j d where p: "p = (j, d)" by (cases p)
  let ?g = "\<lambda>d. center_d2 cx cy (bbox_xyxy d)"
  let ?f = "\<lambda>d. - ?g d"
  show ?case
  proof (cases "j \<in> used")
    case True
    from Cons.IH [of b0 i0] obtain b i where
      r: "center_scan cx cy used ps (b0, i0) = (b, i)" and
      c: "(b = b0 \<and> i = i0 \<and> (\<forall>(j, d) \<in> set ps. j \<notin> used \<longrightarrow> \<not> below (?g d) b0))
          \<or> (\<exists>v. b = Some v \<and> below v b0 \<and> scan_hit ?f used ps (- v) i)" by blast
    have "center_scan cx cy used (p # ps) (b0, i0) = (b, i)"
      using True r by (simp add: p)
    moreover have "(b = b0 \<and> i = i0 \<and> (\<forall>(j, d) \<in> set (p # ps). j \<notin> used \<longrightarrow> \<not> below (?g d) b0))
          \<or> (\<exists>v. b = Some v \<and> below v b0 \<and> scan_hit ?f used (p # ps) (- v) i)"
      using c True by (auto simp: p intro: scan_hit_skip)
    ultimately show ?thesis by blast
  next
    case False
    show ?thesis
    proof (cases "below (?g d) b0")
      case better: True
      from Cons.IH [of "Some (?g d)" j] obtain b i where
        r: "center_scan cx cy used ps (Some (?g d), j) = (b, i)" and
        c: "(b = Some (?g d) \<and> i = j \<and>
              (\<forall>(j, e) \<in> set ps. j \<notin> used \<longrightarrow> \<not> below (?g e) (Some (?g d))))
            \<or> (\<exists>v. b = Some v \<and> below v (Some (?g d)) \<and> scan_hit ?f used ps (- v) i)" by blast
      have "center_scan cx cy used (p # ps) (b0, i0) = (b, i)"
        using False better r by (simp add: p)
      moreover have "\<exists>v. b = Some v \<and> below v b0 \<and> scan_hit ?f used (p # ps) (- v) i"
        using c
      proof
        assume h: "b = Some (?g d) \<and> i = j \<and>
              (\<forall>(j, e) \<in> set ps. j \<notin> used \<longrightarrow> \<not> below (?g e) (Some (?g d)))"
        then have "\<forall>(k, e) \<in> set ps. k \<notin> used \<longrightarrow> ?f e \<le> ?f d"
          by (auto simp: below_def)
        then have "scan_hit ?f used ((j, d) # ps) (?f d) j"
          using False by (intro scan_hit_here)
        then show ?thesis using h better by (simp add: p)
      next
        assume "\<exists>v. b = Some v \<and> below v (Some (?g d)) \<and> scan_hit ?f used ps (- v) i"
        then obtain v where h: "b = Some v" "below v (Some (?g d))" "scan_hit ?f used ps (- v) i"
          by blast
        then have "scan_hit ?f used ((j, d) # ps) (- v) i"
          by (intro scan_hit_later) (auto simp: below_def)
        moreover have "below v b0" using h(2) better by (rule below_trans)
        ultimately show ?thesis using h by (simp add: p)
      qed
      ultimately show ?thesis by blast
    next
      case worse: False
      from Cons.IH [of b0 i0] obtain b i where
        r: "center_scan cx cy used ps (b0, i0) = (b, i)" and
        c: "(b = b0 \<and> i = i0 \<and> (\<forall>(j, d) \<in> set ps. j \<notin> used \<longrightarrow> \<not> below (?g d) b0))
            \<or> (\<exists>v. b = Some v \<and> below v b0 \<and> scan_hit ?f used ps (- v) i)" by blast
      have "center_scan cx cy used (p # ps) (b0, i0) = (b, i)"
        using False worse r by (simp add: p)
      moreover have "(b = b0 \<and> i = i0 \<and> (\<forall>(j, d) \<in> set (p # ps). j \<notin> used \<longrightarrow> \<not> below (?g d) b0))
            \<or> (\<exists>v. b = Some v \<and> below v b0 \<and> scan_hit ?f used (p # ps) (- v) i)"
        using c
      proof
        assume "b = b0 \<and> i = i0 \<and> (\<forall>(j, d) \<in> set ps. j \<notin> used \<longrightarrow> \<not> below (?g d) b0)"
        then show ?thesis using worse by (auto simp: p)
      next
        assume "\<exists>v. b = Some v \<and> below v b0 \<and> scan_hit ?f used ps (- v) i"
        then obtain v where h: "b = Some v" "below v b0" "scan_hit ?f used ps (- v) i"
          by blast
        have "?f d < - v" using worse h(2) by (cases b0) (auto simp: below_def)
        with h(3) have "scan_hit ?f used ((j, d) # ps) (- v) i"
          by (intro scan_hit_later)
        then show ?thesis using h by (simp add: p)
      qed
      ultimately show ?thesis by blast
    qed
  qed
qed

lemma center_scan_none:
  assumes "\<not> (\<exists>k. unconsumed used dets k)"
  shows "center_scan cx cy used (enumerate_py dets) (None, - 1) = (None, - 1)"
proof -
  let ?f = "\<lambda>d. - center_d2 cx cy (bbox_xyxy d)"
  from center_scan_cases [of cx cy used "enumerate_py dets" None "- 1"] obtain b i where
    r: "center_scan cx cy used (enumerate_py dets) (None, - 1) = (b, i)" and
    c: "(b = None \<and> i = - 1 \<and> (\<forall>(j, d) \<in> set (enumerate_py dets). j \<notin> used \<longrightarrow>
            \<not> below (center_d2 cx cy (bbox_xyxy d)) None))
        \<or> (\<exists>v. b = Some v \<and> below v None \<and> scan_hit ?f used (enumerate_py dets) (- v) i)"
    by blast
  from c show ?thesis
  proof
    assume "b = None \<and> i = - 1 \<and> (\<forall>(j, d) \<in> set (enumerate_py dets). j \<notin> used \<longrightarrow>
            \<not> below (center_d2 cx cy (bbox_xyxy d)) None)"
    then show ?thesis using r by simp
  next
    assume "\<exists>v. b = Some v \<and> below v None \<and> scan_hit ?f used (enumerate_py dets) (- v) i"
    then obtain k where "stable_argmax ?f used dets k"
      using scan_hit_enumerate by blast
    then have False using assms by (auto simp: stable_argmax_def)
    then show ?thesis ..
  qed
qed

lemma center_scan_some:
  assumes "unconsumed used dets k0"
  shows "\<exists>k. stable_argmin (\<lambda>d. center_d2 cx cy (bbox_xyxy d)) used dets k \<and>
     center_scan cx cy used (enumerate_py dets) (None, - 1)
       = (Some (center_d2 cx cy (bbox_xyxy (dets ! k))), int k)"
proof -
  let ?g = "\<lambda>d. center_d2 cx cy (bbox_xyxy d)"
  let ?f = "\<lambda>d. - ?g d"
  from center_scan_cases [of cx cy used "enumerate_py dets" None "- 1"] obtain b i where
    r: "center_scan cx cy used (enumerate_py dets) (None, - 1) = (b, i)" and
    c: "(b = None \<and> i = - 1 \<and> (\<forall>(j, d) \<in> set (enumerate_py dets). j \<notin> used \<longrightarrow>
            \<not> below (?g d) None))
        \<or> (\<exists>v. b = Some v \<and> below v None \<and> scan_hit ?f used (enumerate_py dets) (- v) i)"
    by blast
  from c show ?thesis
  proof
    assume h: "b = None \<and> i = - 1 \<and> (\<forall>(j, d) \<in> set (enumerate_py dets). j \<notin> used \<longrightarrow>
            \<not> below (?g d) None)"
    have "(int k0, dets ! k0) \<in> set (enumerate_py dets)"
      using assms by (auto simp: enumerate_py_mem unconsumed_def)
    then have "\<not> below (?g (dets ! k0)) None" using h assms by (auto simp: unconsumed_def)
    then have False by (simp add: below_def)
    then show ?thesis ..
  next
    assume "\<exists>v. b = Some v \<and> below v None \<and> scan_hit ?f used (enumerate_py dets) (- v) i"
    then obtain v where v: "b = Some v" "scan_hit ?f used (enumerate_py dets) (- v) i" by blast
    then obtain k where k: "i = int k" "stable_argmax ?f used dets k" "- v = ?f (dets ! k)"
      using scan_hit_enumerate by blast
    then have "stable_argmin ?g used dets k" by (simp add: stable_argmin_neg)
    moreover have "v = ?g (dets ! k)" using k(3) by simp
    ultimately show ?thesis using r v k by blast
  qed
qed

subsection \<open>One instance\<close>

lemma unmatched_eq: "unmatched kvs used st = Inr (set_track_id (- 1) kvs, used, bump_none st)"
  by (simp add: unmatched_def set_track_id_def bump_none_def)

lemma take_iou_eq:
  "k < length dets \<Longrightarrow> take_iou dets (int k) kvs used st
     = Inr (set_track_id (track_id (dets ! k)) kvs, insert (int k) used, bump_iou st)"
  by (simp add: take_iou_def list_get_nat set_track_id_def bump_iou_def)

lemma take_center_eq:
  "k < length dets \<Longrightarrow> take_center dets (int k) kvs used st
     = Inr (set_track_id (track_id (dets ! k)) kvs, insert (int k) used, bump_center st)"
  by (simp add: take_center_def list_get_nat set_track_id_def bump_center_def)

lemma center_fallback_off:
  "\<not> use_center_fallback \<or> \<not> (\<exists>k. unconsumed used dets k)
   \<Longrightarrow> center_fallback use_center_fallback dets bb kvs used st = unmatched kvs used st"
  by (cases "center_xyxy bb") (auto simp: center_fallback_def center_scan_none)

lemma center_fallback_on:
  assumes "use_center_fallback" "unconsumed used dets k0" "center_xyxy bb = (cx, cy)"
  shows "\<exists>k. stable_argmin (\<lambda>d. center_d2 cx cy (bbox_xyxy d)) used dets k \<and>
     center_fallback use_center_fallback dets bb kvs used st
       = Inr (set_track_id (track_id (dets ! k)) kvs, insert (int k) used, bump_center st)"
proof -
  from center_scan_some [OF assms(2), of cx cy] obtain k where
    k: "stable_argmin (\<lambda>d. center_d2 cx cy (bbox_xyxy d)) used dets k" and
    r: "center_scan cx cy used (enumerate_py dets) (None, - 1)
          = (Some (center_d2 cx cy (bbox_xyxy (dets ! k))), int k)" by blast
  have kl: "k < length dets" using k by (simp add: stable_argmin_def unconsumed_def)
  then have "dets \<noteq> []" by auto
  then have "center_fallback use_center_fallback dets bb kvs used st
       = Inr (set_track_id (track_id (dets ! k)) kvs, insert (int k) used, bump_center st)"
    using assms(1,3) r kl by (simp add: center_fallback_def take_center_eq)
  with k show ?thesis by blast
qed




lemma bbox_unusable_False:
  "bbox_unusable bbox dets = Inr False \<longleftrightarrow> truthy bbox \<and> py_len bbox = Inr 4 \<and> dets \<noteq> []"
  by (cases "py_len bbox") (auto simp: bbox_unusable_def)

lemma assign_inst_usable:
  assumes "usable_box kvs bb" "dets \<noteq> []"
  shows "assign_inst min_iou ucf dets (JObj kvs) (used, st) =
     ebind (iou_scan bb used (enumerate_py dets) (- 1, - 1)) (\<lambda>best.
       if snd best \<noteq> - 1 \<and> fst best \<ge> max 0 min_iou
       then take_iou dets (snd best) kvs used st
       else center_fallback ucf dets bb kvs used st)"
proof -
  have "bbox_unusable (dict_get kvs ''bbox'' JNull) dets = Inr False"
    using assms by (simp add: bbox_unusable_False usable_box_def)
  moreover have "box_of (dict_get kvs ''bbox'' JNull) = Inr bb"
    using assms by (simp add: usable_box_def)
  ultimately show ?thesis by (simp add: assign_inst_def)
qed

lemma assign_inst_phase1:
  assumes "usable_box kvs bb" "unconsumed used dets k0"
  shows "\<exists>k. stable_argmax (\<lambda>d. iou bb (bbox_xyxy d)) used dets k \<and>
     assign_inst min_iou ucf dets (JObj kvs) (used, st) =
       (if min_iou \<le> iou bb (bbox_xyxy (dets ! k))
        then Inr (set_track_id (track_id (dets ! k)) kvs, insert (int k) used, bump_iou st)
        else center_fallback ucf dets bb kvs used st)"
proof -
  from iou_scan_some [OF assms(2), of bb] obtain k where
    k: "stable_argmax (\<lambda>d. iou bb (bbox_xyxy d)) used dets k" and
    r: "iou_scan bb used (enumerate_py dets) (- 1, - 1) = Inr (iou bb (bbox_xyxy (dets ! k)), int k)"
    by blast
  have kl: "k < length dets" using k by (simp add: stable_argmax_def unconsumed_def)
  then have ne: "dets \<noteq> []" by auto
  have "0 \<le> iou bb (bbox_xyxy (dets ! k))" by (rule iou_nonneg)
  then have "max 0 min_iou \<le> iou bb (bbox_xyxy (dets ! k)) \<longleftrightarrow> min_iou \<le> iou bb (bbox_xyxy (dets ! k))"
    by simp
  then have "assign_inst min_iou ucf dets (JObj kvs) (used, st) =
       (if min_iou \<le> iou bb (bbox_xyxy (dets ! k))
        then Inr (set_track_id (track_id (dets ! k)) kvs, insert (int k) used, bump_iou st)
        else center_fallback ucf dets bb kvs used st)"
    using r kl by (simp add: assign_inst_usable [OF assms(1) ne] take_iou_eq)
  with k show ?thesis by blast
qed

lemma assign_inst_exhausted:
  assumes "usable_box kvs bb" "dets \<noteq> []" "\<not> (\<exists>k. unconsumed used dets k)"
  shows "assign_inst min_iou ucf dets (JObj kvs) (used, st)
     = Inr (set_track_id (- 1) kvs, used, bump_none st)"
  using assms(3)
  by (simp add: assign_inst_usable [OF assms(1,2)] iou_scan_none center_fallback_off unmatched_eq)

lemma assign_inst_skip:
  assumes "bbox_unusable (dict_get kvs ''bbox'' JNull) dets = Inr True"
  shows "assign_inst min_iou ucf dets (JObj kvs) (used, st)
     = Inr (set_track_id (- 1) kvs, used, bump_none st)"
  using assms by (simp add: assign_inst_def unmatched_eq)

lemma assign_inst_cases:
  assumes "assign_inst min_iou ucf dets inst (used, st) = Inr (inst', used', st')"
  shows "\<exists>kvs. inst = JObj kvs \<and>
     ((inst' = set_track_id (- 1) kvs \<and> used' = used \<and> st' = bump_none st) \<or>
      (\<exists>k. unconsumed used dets k \<and> inst' = set_track_id (track_id (dets ! k)) kvs \<and>
           used' = insert (int k) used \<and> (st' = bump_iou st \<or> ucf \<and> st' = bump_center st)))"
proof (cases inst)
  case (JObj kvs)
  let ?bbox = "dict_get kvs ''bbox'' JNull"
  show ?thesis
  proof (cases "bbox_unusable ?bbox dets")
    case (Inl e)
    then have False using assms by (simp add: JObj assign_inst_def)
    then show ?thesis ..
  next
    case (Inr skip)
    show ?thesis
    proof (cases skip)
      case True
      then show ?thesis using assms Inr assign_inst_skip [of kvs dets] by (simp add: JObj)
    next
      case False
      then have u: "truthy ?bbox" "py_len ?bbox = Inr 4" "dets \<noteq> []"
        using Inr by (simp_all add: bbox_unusable_False)
      show ?thesis
      proof (cases "box_of ?bbox")
        case (Inl e)
        then have False using assms Inr False by (simp add: JObj assign_inst_def)
        then show ?thesis ..
      next
        case bb: (Inr bb)
        then have ub: "usable_box kvs bb" using u by (simp add: usable_box_def)
        show ?thesis
        proof (cases "\<exists>k. unconsumed used dets k")
          case False
          then show ?thesis
            using assms assign_inst_exhausted [OF ub u(3), of used] by (simp add: JObj)
        next
          case True
          then obtain k0 where k0: "unconsumed used dets k0" by blast
          from assign_inst_phase1 [OF ub k0, of min_iou ucf st] obtain k where
            k: "stable_argmax (\<lambda>d. iou bb (bbox_xyxy d)) used dets k" and
            r: "assign_inst min_iou ucf dets (JObj kvs) (used, st) =
                 (if min_iou \<le> iou bb (bbox_xyxy (dets ! k))
                  then Inr (set_track_id (track_id (dets ! k)) kvs, insert (int k) used, bump_iou st)
                  else center_fallback ucf dets bb kvs used st)" by blast
          have ku: "unconsumed used dets k" using k by (simp add: stable_argmax_def)
          show ?thesis
          proof (cases "min_iou \<le> iou bb (bbox_xyxy (dets ! k))")
            case True
            then show ?thesis using assms r ku by (auto simp: JObj)
          next
            case low: False
            show ?thesis
            proof (cases ucf)
              case False
              then show ?thesis
                using assms r low center_fallback_off [of ucf used dets bb kvs st]
                by (simp add: JObj unmatched_eq)
            next
              case True
              obtain cx cy where c: "center_xyxy bb = (cx, cy)" by (cases "center_xyxy bb")
              from center_fallback_on [OF True k0 c, of kvs st] obtain k2 where
                "stable_argmin (\<lambda>d. center_d2 cx cy (bbox_xyxy d)) used dets k2"
                "center_fallback ucf dets bb kvs used st
                   = Inr (set_track_id (track_id (dets ! k2)) kvs, insert (int k2) used, bump_center st)"
                by blast
              then show ?thesis
                using assms r low True by (auto simp: JObj stable_argmin_def)
            qed
          qed
        qed
      qed
    qed
  qed
qed (use assms in \<open>simp_all add: assign_inst_def\<close>)

subsection \<open>The loops over instances and entries\<close>

lemma assign_insts_ConsE:
  assumes "assign_insts min_iou ucf dets (inst # rest) (used, st) = Inr (out, used'', st'')"
  obtains inst' used' st' rest' where
    "assign_inst min_iou ucf dets inst (used, st) = Inr (inst', used', st')"
    "assign_insts min_iou ucf dets rest (used', st') = Inr (rest', used'', st'')"
    "out = inst' # rest'"
proof (cases "assign_inst min_iou ucf dets inst (used, st)")
  case (Inl e)
  then show ?thesis using assms by simp
next
  case (Inr r)
  obtain inst' used' st' where r: "r = (inst', used', st')" by (cases r)
  show ?thesis
  proof (cases "assign_insts min_iou ucf dets rest (used', st')")
    case (Inl e)
    then show ?thesis using assms Inr r by simp
  next
    case rest: (Inr q)
    obtain rest' u s where q: "q = (rest', u, s)" by (cases q)
    have "out = inst' # rest' \<and> u = used'' \<and> s = st''"
      using assms Inr r rest q by simp
    then show ?thesis using Inr r rest q by (intro that [of inst' used' st' rest']) simp_all
  qed
qed

lemma assign_entryE:
  assumes "assign_entry min_iou ucf botsort_frames entry st = Inr (entry', st')"
  obtains (absent) "map_of entry ''instances'' = None" "entry' = entry" "st' = st"
  | (present) v instances insts' used' where
      "map_of entry ''instances'' = Some v" "py_iter v = Inr instances"
      "assign_insts min_iou ucf (frame_dets botsort_frames entry) instances ({}, st)
         = Inr (insts', used', st')"
      "entry' = store_instances entry v insts'"
proof (cases "py_int (dict_get entry ''frame_id'' (JInt (- 1)))")
  case (Inl e)
  then show ?thesis using assms by (simp add: assign_entry_def)
next
  case (Inr frame_id)
  then have fd: "frame_dets botsort_frames entry
      = (case botsort_frames frame_id of None \<Rightarrow> [] | Some ds \<Rightarrow> ds)"
    by (simp add: frame_dets_def)
  show ?thesis
  proof (cases "map_of entry ''instances''")
    case None
    then have "entry' = entry \<and> st' = st"
      using assms Inr by (simp add: assign_entry_def)
    then show ?thesis using None by (intro absent) simp_all
  next
    case (Some v)
    show ?thesis
    proof (cases "py_iter v")
      case (Inl e)
      then show ?thesis using assms Inr Some by (simp add: assign_entry_def)
    next
      case it: (Inr instances)
      show ?thesis
      proof (cases "assign_insts min_iou ucf (frame_dets botsort_frames entry) instances ({}, st)")
        case (Inl e)
        then show ?thesis using assms Inr Some it fd by (simp add: assign_entry_def)
      next
        case res: (Inr r)
        obtain insts' used' s where r: "r = (insts', used', s)" by (cases r)
        have "entry' = store_instances entry v insts' \<and> st' = s"
          using assms Inr Some it fd res r by (simp add: assign_entry_def)
        then show ?thesis using Some it res r by (intro present [of v instances insts' used']) simp_all
      qed
    qed
  qed
qed

lemma assign_entries_ConsE:
  assumes "assign_entries min_iou ucf botsort_frames (entry # rest) st = Inr (out, st'')"
  obtains entry' st' rest' where
    "assign_entry min_iou ucf botsort_frames entry st = Inr (entry', st')"
    "assign_entries min_iou ucf botsort_frames rest st' = Inr (rest', st'')"
    "out = entry' # rest'"
proof (cases "assign_entry min_iou ucf botsort_frames entry st")
  case (Inl e)
  then show ?thesis using assms by simp
next
  case (Inr r)
  obtain entry' st' where r: "r = (entry', st')" by (cases r)
  show ?thesis
  proof (cases "assign_entries min_iou ucf botsort_frames rest st'")
    case (Inl e)
    then show ?thesis using assms Inr r by simp
  next
    case rest: (Inr q)
    obtain rest' s where q: "q = (rest', s)" by (cases q)
    have "out = entry' # rest' \<and> s = st''"
      using assms Inr r rest q by simp
    then show ?thesis using Inr r rest q by (intro that [of entry' st' rest']) simp_all
  qed
qed

subsection \<open>Counters\<close>

lemma counter_deltas_step:
  assumes "assign_inst min_iou ucf dets inst (used, st) = Inr (inst', used', st')"
  shows "counter_deltas st st' \<in> {(1, 0, 0), (0, 1, 0), (0, 0, 1)}"
  using assign_inst_cases [OF assms]
  by (auto simp: counter_deltas_def bump_iou_def bump_center_def bump_none_def)

lemma counter_sum_step:
  assumes "assign_inst min_iou ucf dets inst (used, st) = Inr (inst', used', st')"
  shows "counter_sum st' = counter_sum st + 1"
  using counter_deltas_step [OF assms] by (auto simp: counter_deltas_def counter_sum_def)

lemma assign_insts_count:
  "assign_insts min_iou ucf dets insts (used, st) = Inr (insts', used', st')
   \<Longrightarrow> counter_sum st' = counter_sum st + int (length insts) \<and> length insts' = length insts"
proof (induction insts arbitrary: used st insts')
  case Nil
  then show ?case by simp
next
  case (Cons inst rest)
  from Cons.prems obtain inst1 used1 st1 rest' where
    s: "assign_inst min_iou ucf dets inst (used, st) = Inr (inst1, used1, st1)" and
    r: "assign_insts min_iou ucf dets rest (used1, st1) = Inr (rest', used', st')" and
    o: "insts' = inst1 # rest'"
    by (rule assign_insts_ConsE)
  from Cons.IH [OF r] counter_sum_step [OF s] o show ?case by simp
qed

lemma assign_entry_count:
  assumes "assign_entry min_iou ucf botsort_frames entry st = Inr (entry', st')"
  shows "counter_sum st' = counter_sum st + int (instance_count entry)"
  using assms
proof (cases rule: assign_entryE)
  case absent
  then show ?thesis by (simp add: instance_count_def)
next
  case (present v instances insts' used')
  then show ?thesis using assign_insts_count [OF present(3)] by (simp add: instance_count_def)
qed

lemma assign_entries_count:
  "assign_entries min_iou ucf botsort_frames kp st = Inr (out, st')
   \<Longrightarrow> counter_sum st' = counter_sum st + int (total_instances kp)"
proof (induction kp arbitrary: st out)
  case Nil
  then show ?case by (simp add: total_instances_def)
next
  case (Cons entry rest)
  from Cons.prems obtain entry1 st1 rest' where
    s: "assign_entry min_iou ucf botsort_frames entry st = Inr (entry1, st1)" and
    r: "assign_entries min_iou ucf botsort_frames rest st1 = Inr (rest', st')"
    by (rule assign_entries_ConsE)
  from Cons.IH [OF r] assign_entry_count [OF s] show ?case
    by (simp add: total_instances_def)
qed

text \<open>
  Claim C1. Processing one instance changes exactly one of the three counters, by
  one; and when a run of \<^verbatim>\<open>assign_track_ids\<close> returns, the three counters add up to
  the number of instances the run iterated over.
\<close>

theorem counters_account_for_every_instance:
  "(assign_inst min_iou use_center_fallback dets inst (used, st) = Inr (inst', used', st')
      \<longrightarrow> counter_deltas st st' \<in> {(1, 0, 0), (0, 1, 0), (0, 0, 1)}) \<and>
   (assign_track_ids kp_frames botsort_frames min_iou use_center_fallback = Inr (out, fin)
      \<longrightarrow> matched_iou fin + matched_center fin + no_candidate fin
            = int (total_instances kp_frames))"
proof (intro conjI impI)
  assume "assign_inst min_iou use_center_fallback dets inst (used, st) = Inr (inst', used', st')"
  then show "counter_deltas st st' \<in> {(1, 0, 0), (0, 1, 0), (0, 0, 1)}"
    by (rule counter_deltas_step)
next
  assume "assign_track_ids kp_frames botsort_frames min_iou use_center_fallback = Inr (out, fin)"
  then have "counter_sum fin
      = counter_sum \<lparr>matched_iou = 0, matched_center = 0, no_candidate = 0\<rparr>
        + int (total_instances kp_frames)"
    unfolding assign_track_ids_def by (rule assign_entries_count)
  then show "matched_iou fin + matched_center fin + no_candidate fin
      = int (total_instances kp_frames)"
    by (simp add: counter_sum_def)
qed

theorem counters_account_for_every_instance_witness:
  "assign_inst 0 False [\<lparr>track_id = 5, bbox_xyxy = (0, 0, 10, 10)\<rparr>]
     (example_instance [0, 0, 10, 10]) ({}, zero_stats)
     = Inr (example_tagged [0, 0, 10, 10] 5, {0}, \<lparr>matched_iou = 1, matched_center = 0, no_candidate = 0\<rparr>) \<and>
   counter_deltas zero_stats \<lparr>matched_iou = 1, matched_center = 0, no_candidate = 0\<rparr>
     \<in> {(1, 0, 0), (0, 1, 0), (0, 0, 1)} \<and>
   assign_track_ids contended_frames contended_index 0 False
     = Inr ([example_frame [example_tagged [0, 0, 10, 10] 5, example_tagged [0, 0, 10, 10] (- 1)]],
            \<lparr>matched_iou = 1, matched_center = 0, no_candidate = 1\<rparr>) \<and>
   (1::int) + 0 + 1 = int (total_instances contended_frames)"
  using counters_account_for_every_instance
    [of 0 False "[\<lparr>track_id = 5, bbox_xyxy = (0, 0, 10, 10)\<rparr>]" "example_instance [0, 0, 10, 10]"
        "{}" zero_stats "example_tagged [0, 0, 10, 10] 5" "{0}"
        "\<lparr>matched_iou = 1, matched_center = 0, no_candidate = 0\<rparr>"
        contended_frames contended_index
        "[example_frame [example_tagged [0, 0, 10, 10] 5, example_tagged [0, 0, 10, 10] (- 1)]]"
        "\<lparr>matched_iou = 1, matched_center = 0, no_candidate = 1\<rparr>"]
    contended_run contended_step
  by simp

subsection \<open>Exclusivity within a frame entry\<close>

lemma inst_track_id_set [simp]: "inst_track_id (set_track_id t kvs) = Some t"
  by (simp add: inst_track_id_def set_track_id_def update_conv')

lemma assigned_ids_Cons:
  "assigned_ids (set_track_id t kvs # rest) = (if 0 \<le> t then t # assigned_ids rest else assigned_ids rest)"
  by (simp add: assigned_ids_def map_filter_simps)

lemma assign_insts_exclusive:
  assumes "distinct (map track_id dets)"
  shows "assign_insts min_iou ucf dets insts (used, st) = Inr (insts', used', st')
   \<Longrightarrow> used \<subseteq> used' \<and> (\<forall>i \<in> used' - used. 0 \<le> i \<and> i < int (length dets)) \<and>
       distinct (assigned_ids insts') \<and>
       set (assigned_ids insts') \<subseteq> (\<lambda>i. track_id (dets ! nat i)) ` (used' - used)"
proof (induction insts arbitrary: used st insts')
  case Nil
  then show ?case by (simp add: assigned_ids_def map_filter_simps)
next
  case (Cons inst rest)
  from Cons.prems obtain inst1 used1 st1 rest' where
    s: "assign_inst min_iou ucf dets inst (used, st) = Inr (inst1, used1, st1)" and
    r: "assign_insts min_iou ucf dets rest (used1, st1) = Inr (rest', used', st')" and
    o: "insts' = inst1 # rest'"
    by (rule assign_insts_ConsE)
  from Cons.IH [OF r] have
    sub: "used1 \<subseteq> used'" and
    rng: "\<forall>i \<in> used' - used1. 0 \<le> i \<and> i < int (length dets)" and
    dis: "distinct (assigned_ids rest')" and
    img: "set (assigned_ids rest') \<subseteq> (\<lambda>i. track_id (dets ! nat i)) ` (used' - used1)"
    by simp_all
  from assign_inst_cases [OF s] obtain kvs where
    c: "(inst1 = set_track_id (- 1) kvs \<and> used1 = used \<and> st1 = bump_none st) \<or>
        (\<exists>k. unconsumed used dets k \<and> inst1 = set_track_id (track_id (dets ! k)) kvs \<and>
             used1 = insert (int k) used \<and> (st1 = bump_iou st \<or> st1 = bump_center st))"
    by blast
  from c show ?case
  proof
    assume "inst1 = set_track_id (- 1) kvs \<and> used1 = used \<and> st1 = bump_none st"
    then show ?thesis using sub rng dis img o by (simp add: assigned_ids_Cons)
  next
    assume "\<exists>k. unconsumed used dets k \<and> inst1 = set_track_id (track_id (dets ! k)) kvs \<and>
             used1 = insert (int k) used \<and> (st1 = bump_iou st \<or> st1 = bump_center st)"
    then obtain k where k: "k < length dets" "int k \<notin> used"
      "inst1 = set_track_id (track_id (dets ! k)) kvs" "used1 = insert (int k) used"
      by (auto simp: unconsumed_def)
    have fresh: "track_id (dets ! k) \<notin> set (assigned_ids rest')"
    proof
      assume "track_id (dets ! k) \<in> set (assigned_ids rest')"
      then obtain i where i: "i \<in> used' - used1" "track_id (dets ! k) = track_id (dets ! nat i)"
        using img by auto
      then have ir: "0 \<le> i" "i < int (length dets)" using rng by auto
      then have "nat i < length dets" by simp
      moreover have "map track_id dets ! k = map track_id dets ! nat i"
        using i(2) k(1) \<open>nat i < length dets\<close> by simp
      ultimately have "k = nat i"
        using assms k(1) nth_eq_iff_index_eq [of "map track_id dets" k "nat i"] by simp
      then have "int k = i" using ir by simp
      then show False using i(1) k(4) by simp
    qed
    have "used \<subseteq> used'" using sub k(4) by auto
    moreover have "\<forall>i \<in> used' - used. 0 \<le> i \<and> i < int (length dets)"
      using rng k(1,4) by auto
    moreover have "distinct (assigned_ids insts')"
      using dis fresh o k(3) by (simp add: assigned_ids_Cons)
    moreover have "set (assigned_ids insts') \<subseteq> (\<lambda>i. track_id (dets ! nat i)) ` (used' - used)"
    proof -
      have "int k \<in> used' - used" using sub k(2,4) by auto
      then have "track_id (dets ! k) \<in> (\<lambda>i. track_id (dets ! nat i)) ` (used' - used)"
        by (metis (mono_tags, lifting) image_eqI nat_int)
      moreover have "used' - used1 \<subseteq> used' - used" using k(4) by auto
      then have "(\<lambda>i. track_id (dets ! nat i)) ` (used' - used1)
          \<subseteq> (\<lambda>i. track_id (dets ! nat i)) ` (used' - used)" by (rule image_mono)
      then have "set (assigned_ids rest') \<subseteq> (\<lambda>i. track_id (dets ! nat i)) ` (used' - used)"
        using img by (rule order_trans [rotated])
      ultimately show ?thesis using o k(3) by (simp add: assigned_ids_Cons)
    qed
    ultimately show ?thesis by blast
  qed
qed

lemma frame_dets_distinct:
  "distinct_candidates botsort_frames \<Longrightarrow> distinct (map track_id (frame_dets botsort_frames entry))"
  by (auto simp: frame_dets_def distinct_candidates_def split: sum.splits option.splits)

lemma assign_entry_exclusive:
  assumes "distinct_candidates botsort_frames"
    and "assign_entry min_iou ucf botsort_frames entry st = Inr (entry', st')"
  shows "distinct (entry_assigned_ids entry')"
  using assms(2)
proof (cases rule: assign_entryE)
  case absent
  then show ?thesis by (simp add: entry_assigned_ids_def)
next
  case (present v instances insts' used')
  show ?thesis
  proof (cases v)
    case (JArr xs)
    have "distinct (assigned_ids insts')"
      using assign_insts_exclusive [OF frame_dets_distinct [OF assms(1)] present(3)] by simp
    then show ?thesis
      using present(4) JArr by (simp add: store_instances_def entry_assigned_ids_def update_conv')
  qed (use present in \<open>simp_all add: store_instances_def entry_assigned_ids_def\<close>)
qed

lemma assign_entries_exclusive:
  assumes "distinct_candidates botsort_frames"
  shows "assign_entries min_iou ucf botsort_frames kp st = Inr (out, st')
   \<Longrightarrow> \<forall>entry \<in> set out. distinct (entry_assigned_ids entry)"
proof (induction kp arbitrary: st out)
  case Nil
  then show ?case by simp
next
  case (Cons entry rest)
  from Cons.prems obtain entry1 st1 rest' where
    s: "assign_entry min_iou ucf botsort_frames entry st = Inr (entry1, st1)" and
    r: "assign_entries min_iou ucf botsort_frames rest st1 = Inr (rest', st')" and
    o: "out = entry1 # rest'"
    by (rule assign_entries_ConsE)
  from Cons.IH [OF r] assign_entry_exclusive [OF assms s] o show ?case by simp
qed

text \<open>
  Claim C2 as stated fails when the tracker file lists one identity twice in a
  frame: both detections of the frame receive track id 7.
\<close>

theorem same_id_twice_counterexample:
  "main_run twin_lines twin_frames 0 False
     = Inr ([example_frame [example_tagged [0, 0, 10, 10] 7, example_tagged [20, 20, 30, 30] 7]],
            \<lparr>matched_iou = 2, matched_center = 0, no_candidate = 0\<rparr>) \<and>
   entry_assigned_ids (example_frame [example_tagged [0, 0, 10, 10] 7, example_tagged [20, 20, 30, 30] 7])
     = [7, 7] \<and>
   \<not> distinct [7 :: int, 7]"
  by code_simp

text \<open>
  Claim C2, amended. Exclusivity is by candidate position: a candidate is consumed
  by at most one instance of a frame entry. So when the candidates of every frame
  carry pairwise distinct track ids, the non-negative track ids written into the
  instances of one frame entry are pairwise distinct.
\<close>

theorem distinct_candidates_give_distinct_ids:
  "distinct_candidates botsort_frames \<Longrightarrow>
   assign_track_ids kp_frames botsort_frames min_iou use_center_fallback = Inr (out, fin) \<Longrightarrow>
   \<forall>entry \<in> set out. distinct (entry_assigned_ids entry)"
  unfolding assign_track_ids_def by (rule assign_entries_exclusive)

theorem distinct_candidates_give_distinct_ids_witness:
  "distinct_candidates contended_index \<and>
   assign_track_ids contended_frames contended_index 0 False
     = Inr ([example_frame [example_tagged [0, 0, 10, 10] 5, example_tagged [0, 0, 10, 10] (- 1)]],
            \<lparr>matched_iou = 1, matched_center = 0, no_candidate = 1\<rparr>) \<and>
   distinct (entry_assigned_ids
     (example_frame [example_tagged [0, 0, 10, 10] 5, example_tagged [0, 0, 10, 10] (- 1)]))"
  using distinct_candidates_give_distinct_ids [OF distinct_candidates_contended contended_run]
    distinct_candidates_contended contended_run
  by simp

subsection \<open>Phase 1: overlap matching\<close>



subsection \<open>The tracker loader\<close>

lemma load_rows_short:
  "length row < 6 \<Longrightarrow> load_rows (row # rows) frames = load_rows rows frames"
  by simp

lemma int_float_bad: "float_of_str s = Inl ValueError \<Longrightarrow> int_float s = Inl ValueError"
  by (simp add: int_float_def)

lemma float_field_bad: "float_of_str s = Inl ValueError \<Longrightarrow> float_field s = Inl ValueError"
  by (simp add: float_field_def)

lemma load_rows_bad_head:
  assumes "6 \<le> length row" "i < 6" "float_of_str (row ! i) = Inl ValueError"
  shows "isl (load_rows (row # rows) frames)"
proof -
  have ne: "\<not> (row = [] \<or> length row < 6)" using assms(1) by auto
  have "i = 0 \<or> i = 1 \<or> i = 2 \<or> i = 3 \<or> i = 4 \<or> i = 5" using assms(2) by arith
  then have bad: "int_float (row ! 0) = Inl ValueError \<or> int_float (row ! 1) = Inl ValueError \<or>
      float_field (row ! 2) = Inl ValueError \<or> float_field (row ! 3) = Inl ValueError \<or>
      float_field (row ! 4) = Inl ValueError \<or> float_field (row ! 5) = Inl ValueError"
    using assms(3) int_float_bad float_field_bad by blast
  show ?thesis
  proof (cases "int_float (row ! 0)")
    case Inl then show ?thesis using ne by simp
  next
    case f0: (Inr frame)
    show ?thesis
    proof (cases "int_float (row ! 1)")
      case Inl then show ?thesis using ne f0 by simp
    next
      case f1: (Inr tid)
      show ?thesis
      proof (cases "float_field (row ! 2)")
        case Inl then show ?thesis using ne f0 f1 by simp
      next
        case f2: (Inr x)
        show ?thesis
        proof (cases "float_field (row ! 3)")
          case Inl then show ?thesis using ne f0 f1 f2 by simp
        next
          case f3: (Inr y)
          show ?thesis
          proof (cases "float_field (row ! 4)")
            case Inl then show ?thesis using ne f0 f1 f2 f3 by simp
          next
            case f4: (Inr w)
            show ?thesis
            proof (cases "float_field (row ! 5)")
              case Inl then show ?thesis using ne f0 f1 f2 f3 f4 by simp
            next
              case f5: (Inr h)
              from bad f0 f1 f2 f3 f4 f5 have False by simp
              then show ?thesis ..
            qed
          qed
        qed
      qed
    qed
  qed
qed

lemma load_rows_step:
  "isl (load_rows (row # rows) frames) \<or> (\<exists>frames'. load_rows (row # rows) frames = load_rows rows frames')"
proof (cases "row = [] \<or> length row < 6")
  case True
  then have "load_rows (row # rows) frames = load_rows rows frames" by simp
  then show ?thesis by blast
next
  case ne: False
  show ?thesis
  proof (cases "int_float (row ! 0)")
    case Inl then show ?thesis using ne by simp
  next
    case f0: (Inr frame)
    show ?thesis
    proof (cases "int_float (row ! 1)")
      case Inl then show ?thesis using ne f0 by simp
    next
      case f1: (Inr tid)
      show ?thesis
      proof (cases "float_field (row ! 2)")
        case Inl then show ?thesis using ne f0 f1 by simp
      next
        case f2: (Inr x)
        show ?thesis
        proof (cases "float_field (row ! 3)")
          case Inl then show ?thesis using ne f0 f1 f2 by simp
        next
          case f3: (Inr y)
          show ?thesis
          proof (cases "float_field (row ! 4)")
            case Inl then show ?thesis using ne f0 f1 f2 f3 by simp
          next
            case f4: (Inr w)
            show ?thesis
            proof (cases "float_field (row ! 5)")
              case Inl then show ?thesis using ne f0 f1 f2 f3 f4 by simp
            next
              case f5: (Inr h)
              have "\<exists>frames'. load_rows (row # rows) frames = load_rows rows frames'"
                using ne f0 f1 f2 f3 f4 f5 by (intro exI) simp
              then show ?thesis ..
            qed
          qed
        qed
      qed
    qed
  qed
qed

lemma load_rows_bad:
  assumes "6 \<le> length row" "i < 6" "float_of_str (row ! i) = Inl ValueError"
  shows "row \<in> set rows \<Longrightarrow> isl (load_rows rows frames)"
proof (induction rows arbitrary: frames)
  case Nil
  then show ?case by simp
next
  case (Cons r rest)
  show ?case
  proof (cases "r = row")
    case True
    then show ?thesis using load_rows_bad_head [OF assms] by simp
  next
    case False
    then have mem: "row \<in> set rest" using Cons.prems by simp
    from load_rows_step [of r rest frames] show ?thesis
    proof
      assume "isl (load_rows (r # rest) frames)"
      then show ?thesis .
    next
      assume "\<exists>frames'. load_rows (r # rest) frames = load_rows rest frames'"
      then obtain frames' where "load_rows (r # rest) frames = load_rows rest frames'" by blast
      then show ?thesis using Cons.IH [OF mem, of frames'] by simp
    qed
  qed
qed

text \<open>
  Claim C4 as stated fails for a record with fewer than six fields: the line
  \<^verbatim>\<open>1,2,3\<close> is skipped, the loader returns, and the run produces its output.
\<close>

theorem short_record_is_skipped_counterexample:
  "length (csv_row ''1,2,3'') < 6 \<and>
   \<not> isl (load_botsort (map csv_row [''1,2,3''])) \<and>
   main_run [''1,2,3''] contended_frames 0 False
     = Inr ([example_frame [example_tagged [0, 0, 10, 10] (- 1), example_tagged [0, 0, 10, 10] (- 1)]],
            \<lparr>matched_iou = 0, matched_center = 0, no_candidate = 2\<rparr>)"
  by code_simp

text \<open>
  Claim C4, amended. A record with fewer than six fields is skipped by the loader.
  A record with at least six fields, one of whose first six is text that
  \<^verbatim>\<open>float\<close> rejects, makes \<^verbatim>\<open>load_botsort\<close> raise; and when the loader raises,
  the whole run ends with that exception and produces no output.
\<close>

theorem malformed_tracker_rows:
  "(length short < 6 \<longrightarrow> load_rows (short # rest) frames = load_rows rest frames) \<and>
   (row \<in> set rows \<and> 6 \<le> length row \<and> i < 6 \<and> float_of_str (row ! i) = Inl ValueError
      \<longrightarrow> (\<exists>e. load_botsort rows = Inl e)) \<and>
   (load_botsort (map csv_row botsort_lines) = Inl e
      \<longrightarrow> main_run botsort_lines kp_frames min_iou use_center_fallback = Inl e)"
proof (intro conjI impI)
  assume "length short < 6"
  then show "load_rows (short # rest) frames = load_rows rest frames" by (rule load_rows_short)
next
  assume "row \<in> set rows \<and> 6 \<le> length row \<and> i < 6 \<and> float_of_str (row ! i) = Inl ValueError"
  then have "isl (load_botsort rows)"
    unfolding load_botsort_def using load_rows_bad [of row i rows Map.empty] by blast
  then show "\<exists>e. load_botsort rows = Inl e" by (cases "load_botsort rows") simp_all
next
  assume "load_botsort (map csv_row botsort_lines) = Inl e"
  then show "main_run botsort_lines kp_frames min_iou use_center_fallback = Inl e"
    by (simp add: main_run_def)
qed

theorem malformed_tracker_rows_witness:
  "length [''1'', ''2'', ''3''] < 6 \<and>
   load_rows ([''1'', ''2'', ''3''] # []) Map.empty = load_rows [] Map.empty \<and>
   csv_row ''abc,1,2,3,4,5'' \<in> set [csv_row ''abc,1,2,3,4,5''] \<and>
   6 \<le> length (csv_row ''abc,1,2,3,4,5'') \<and> (0::nat) < 6 \<and>
   float_of_str (csv_row ''abc,1,2,3,4,5'' ! 0) = Inl ValueError \<and>
   (\<exists>e. load_botsort [csv_row ''abc,1,2,3,4,5''] = Inl e) \<and>
   load_botsort (map csv_row [''abc,1,2,3,4,5'']) = Inl ValueError \<and>
   main_run [''abc,1,2,3,4,5''] contended_frames 0 False = Inl ValueError"
proof -
  have row: "csv_row ''abc,1,2,3,4,5'' \<in> set [csv_row ''abc,1,2,3,4,5''] \<and>
      6 \<le> length (csv_row ''abc,1,2,3,4,5'') \<and> (0::nat) < 6 \<and>
      float_of_str (csv_row ''abc,1,2,3,4,5'' ! 0) = Inl ValueError"
    by (simp add: abc_row abc_not_numeric)
  have short: "length [''1'', ''2'', ''3''] < 6" by simp
  note t = malformed_tracker_rows
    [where short = "[''1'', ''2'', ''3'']" and rest = "[]" and frames = Map.empty
       and row = "csv_row ''abc,1,2,3,4,5''" and rows = "[csv_row ''abc,1,2,3,4,5'']" and i = 0
       and botsort_lines = "[''abc,1,2,3,4,5'']" and e = ValueError
       and kp_frames = contended_frames and min_iou = 0 and use_center_fallback = False]
  from t have a: "load_rows ([''1'', ''2'', ''3''] # []) Map.empty = load_rows [] Map.empty"
    using short by blast
  from t have b: "\<exists>e. load_botsort [csv_row ''abc,1,2,3,4,5''] = Inl e"
    using row by blast
  from t have c: "main_run [''abc,1,2,3,4,5''] contended_frames 0 False = Inl ValueError"
    using abc_load by blast
  from short a row b abc_load c show ?thesis by blast
qed

subsection \<open>Phase 2: centroid fallback\<close>











subsection \<open>Instances without a usable box\<close>

lemma lacks_box_unusable:
  "lacks_box kvs \<Longrightarrow> bbox_unusable (dict_get kvs ''bbox'' JNull) dets = Inr True"
  by (auto simp: lacks_box_def bbox_unusable_def split: sum.splits)

text \<open>
  Claim C7 as stated fails: with a well-formed tracker file, a detection whose
  \<^verbatim>\<open>bbox\<close> is a list of four non-numeric strings aborts the run with ValueError.
\<close>

theorem non_numeric_box_is_fatal_counterexample:
  "\<not> isl (load_botsort (map csv_row [''1,5,0,0,10,10''])) \<and>
   main_run [''1,5,0,0,10,10''] letters_frames 0 False = Inl ValueError"
  by code_simp

text \<open>
  Claim C7, amended. An instance whose \<^verbatim>\<open>bbox\<close> is missing, null or empty, or is a
  string, list or dict of a length other than four, gets \<^verbatim>\<open>track_id = -1\<close> and
  bumps \<open>no_candidate\<close> without an exception, and the loop goes on with the next
  instance, the consumed set unchanged.
\<close>

theorem unusable_box_is_not_fatal:
  assumes "lacks_box kvs"
  shows "assign_inst min_iou use_center_fallback dets (JObj kvs) (used, st)
       = Inr (set_track_id (- 1) kvs, used, bump_none st) \<and>
     assign_insts min_iou use_center_fallback dets (JObj kvs # rest) (used, st)
       = ebind (assign_insts min_iou use_center_fallback dets rest (used, bump_none st))
           (\<lambda>(rest', us). Inr (set_track_id (- 1) kvs # rest', us))"
proof -
  have s: "assign_inst min_iou use_center_fallback dets (JObj kvs) (used, st)
       = Inr (set_track_id (- 1) kvs, used, bump_none st)"
    using lacks_box_unusable [OF assms] by (rule assign_inst_skip)
  then show ?thesis by simp
qed

theorem unusable_box_is_not_fatal_witness:
  "lacks_box [(''keypoints'', JArr [JFloat 1.5, JFloat 2])] \<and>
   assign_inst 0 True far_candidates (JObj [(''keypoints'', JArr [JFloat 1.5, JFloat 2])]) ({}, zero_stats)
     = Inr (set_track_id (- 1) [(''keypoints'', JArr [JFloat 1.5, JFloat 2])], {}, bump_none zero_stats) \<and>
   assign_insts 0 True far_candidates
       [JObj [(''keypoints'', JArr [JFloat 1.5, JFloat 2])], example_instance [0, 0, 10, 10]] ({}, zero_stats)
     = ebind (assign_insts 0 True far_candidates [example_instance [0, 0, 10, 10]] ({}, bump_none zero_stats))
         (\<lambda>(rest', us). Inr (set_track_id (- 1) [(''keypoints'', JArr [JFloat 1.5, JFloat 2])] # rest', us))"
  using unusable_box_is_not_fatal [OF no_box_lacks, of 0 True far_candidates "{}" zero_stats
      "[example_instance [0, 0, 10, 10]]"] no_box_lacks
  by blast

subsection \<open>What a run writes\<close>

lemma drop_set_track_id: "drop_track_id (set_track_id t kvs) = drop_track_id (JObj kvs)"
  by (simp add: drop_track_id_def set_track_id_def delete_update_same)

lemma assign_inst_drop:
  assumes "assign_inst min_iou ucf dets inst (used, st) = Inr (inst', used', st')"
  shows "drop_track_id inst' = drop_track_id inst"
  using assign_inst_cases [OF assms] by (auto simp: drop_set_track_id)

lemma assign_insts_drop:
  "assign_insts min_iou ucf dets insts (used, st) = Inr (insts', used', st')
   \<Longrightarrow> map drop_track_id insts' = map drop_track_id insts"
proof (induction insts arbitrary: used st insts')
  case Nil
  then show ?case by simp
next
  case (Cons inst rest)
  from Cons.prems obtain inst1 used1 st1 rest' where
    s: "assign_inst min_iou ucf dets inst (used, st) = Inr (inst1, used1, st1)" and
    r: "assign_insts min_iou ucf dets rest (used1, st1) = Inr (rest', used', st')" and
    o: "insts' = inst1 # rest'"
    by (rule assign_insts_ConsE)
  from Cons.IH [OF r] assign_inst_drop [OF s] o show ?case by simp
qed

lemma drop_in_entry_update:
  "map_of entry ''instances'' = Some v \<Longrightarrow> drop_in_value v' = drop_in_value v
   \<Longrightarrow> drop_in_entry (AList.update ''instances'' v' entry) = drop_in_entry entry"
  by (induction entry) (auto simp: drop_in_entry_def split: if_splits)

lemma assign_entry_drop:
  assumes "assign_entry min_iou ucf botsort_frames entry st = Inr (entry', st')"
  shows "drop_in_entry entry' = drop_in_entry entry"
  using assms
proof (cases rule: assign_entryE)
  case absent
  then show ?thesis by simp
next
  case (present v instances insts' used')
  show ?thesis
  proof (cases v)
    case (JArr xs)
    then have "map drop_track_id insts' = map drop_track_id xs"
      using present(2,3) assign_insts_drop [of min_iou ucf _ xs "{}" st insts' used' st']
      by (simp add: py_iter_def)
    then have "drop_in_value (JArr insts') = drop_in_value v"
      by (simp add: drop_in_value_def JArr)
    then show ?thesis
      using present(1,4) JArr by (simp add: store_instances_def drop_in_entry_update)
  qed (use present in \<open>simp_all add: store_instances_def\<close>)
qed

lemma assign_entries_drop:
  "assign_entries min_iou ucf botsort_frames kp st = Inr (out, st')
   \<Longrightarrow> without_track_ids out = without_track_ids kp"
proof (induction kp arbitrary: st out)
  case Nil
  then show ?case by (simp add: without_track_ids_def)
next
  case (Cons entry rest)
  from Cons.prems obtain entry1 st1 rest' where
    s: "assign_entry min_iou ucf botsort_frames entry st = Inr (entry1, st1)" and
    r: "assign_entries min_iou ucf botsort_frames rest st1 = Inr (rest', st')" and
    o: "out = entry1 # rest'"
    by (rule assign_entries_ConsE)
  from Cons.IH [OF r] assign_entry_drop [OF s] o show ?case
    by (simp add: without_track_ids_def)
qed

text \<open>
  Claim C8. A run that returns has written nothing but \<^verbatim>\<open>track_id\<close>: after erasing
  that key from every instance, the output collection equals the input collection
  (same entries in the same order, same keys, same values).
\<close>

theorem only_track_id_is_written:
  "assign_track_ids kp_frames botsort_frames min_iou use_center_fallback = Inr (out, fin)
   \<Longrightarrow> without_track_ids out = without_track_ids kp_frames"
  unfolding assign_track_ids_def by (rule assign_entries_drop)

theorem only_track_id_is_written_witness:
  "assign_track_ids contended_frames contended_index 0 False
     = Inr ([example_frame [example_tagged [0, 0, 10, 10] 5, example_tagged [0, 0, 10, 10] (- 1)]],
            \<lparr>matched_iou = 1, matched_center = 0, no_candidate = 1\<rparr>) \<and>
   without_track_ids [example_frame [example_tagged [0, 0, 10, 10] 5, example_tagged [0, 0, 10, 10] (- 1)]]
     = without_track_ids contended_frames"
  using only_track_id_is_written [OF contended_run] contended_run by simp

subsection \<open>Negative acceptance floors\<close>

lemma assign_inst_floor:
  assumes "min_iou \<le> 0"
  shows "assign_inst min_iou ucf dets inst us = assign_inst 0 ucf dets inst us"
proof -
  have "max 0 min_iou = max 0 (0::real)" using assms by simp
  then show ?thesis unfolding assign_inst_def by (simp only:)
qed

lemma assign_insts_floor:
  assumes "min_iou \<le> 0"
  shows "assign_insts min_iou ucf dets insts us = assign_insts 0 ucf dets insts us"
proof (induction insts arbitrary: us)
  case Nil
  show ?case by simp
next
  case (Cons inst rest)
  have "assign_insts min_iou ucf dets (inst # rest) us =
      ebind (assign_inst 0 ucf dets inst us) (\<lambda>(inst', us').
      ebind (assign_insts min_iou ucf dets rest us') (\<lambda>(rest', us'').
        Inr (inst' # rest', us'')))"
    by (simp only: assign_insts.simps assign_inst_floor [OF assms])
  also have "\<dots> = assign_insts 0 ucf dets (inst # rest) us"
    by (simp only: assign_insts.simps Cons.IH)
  finally show ?case .
qed

lemma assign_entry_floor:
  assumes "min_iou \<le> 0"
  shows "assign_entry min_iou ucf idx entry st = assign_entry 0 ucf idx entry st"
  unfolding assign_entry_def by (simp only: assign_insts_floor [OF assms])

lemma assign_entries_floor:
  assumes "min_iou \<le> 0"
  shows "assign_entries min_iou ucf idx kp st = assign_entries 0 ucf idx kp st"
proof (induction kp arbitrary: st)
  case Nil
  show ?case by simp
next
  case (Cons entry rest)
  have "assign_entries min_iou ucf idx (entry # rest) st =
      ebind (assign_entry 0 ucf idx entry st) (\<lambda>(entry', st').
      ebind (assign_entries min_iou ucf idx rest st') (\<lambda>(rest', st'').
        Inr (entry' # rest', st'')))"
    by (simp only: assign_entries.simps assign_entry_floor [OF assms])
  also have "\<dots> = assign_entries 0 ucf idx (entry # rest) st"
    by (simp only: assign_entries.simps Cons.IH)
  finally show ?case .
qed

text \<open>
  Claim C9. A negative \<open>min_iou\<close> behaves as the floor 0: the run gives the same
  collection, the same counters and the same exception, if any.
\<close>

theorem negative_floor_is_zero_floor:
  "min_iou < 0 \<Longrightarrow>
     assign_track_ids kp_frames botsort_frames min_iou use_center_fallback
       = assign_track_ids kp_frames botsort_frames 0 use_center_fallback"
  unfolding assign_track_ids_def by (rule assign_entries_floor) simp

theorem negative_floor_is_zero_floor_witness:
  "(- 1 :: real) < 0 \<and>
   assign_track_ids contended_frames contended_index (- 1) True
     = assign_track_ids contended_frames contended_index 0 True"
  using negative_floor_is_zero_floor [of "- 1" contended_frames contended_index True] by simp

subsection \<open>Ties in phase 2\<close>



end
